theory Spec2Isabelle
  imports Main "HOL-Library.Word" "HOL-Library.Monad_Syntax"
begin

unbundle bit_operations_syntax

section \<open>Bytes and Go slices\<close>

text \<open>
  The adapter endpoint of \<^verbatim>\<open>pkg/netstack/core\<close> exists in two builds: the
  \<^verbatim>\<open>linux darwin\<close> file (offset read and write with a 4 byte frame prefix) and
  \<^verbatim>\<open>gvisor_windows.go\<close> (direct read for WinTun, push producer for WinDivert).
  Both are embedded here.  A Go byte slice is a window \<open>(off, len, cap)\<close> on a backing
  array; the backing array is a byte list that is passed along and returned by every
  operation that stores into it.  A run-time panic of Go (index or slice bounds out of
  range, nil dereference) is the value \<open>None\<close> of the option monad.
\<close>

type_synonym byte = "8 word"
type_synonym bytes = "byte list"

record slice =
  off :: nat
  len :: nat
  cap :: nat

text \<open>\<^verbatim>\<open>make([]byte, n)\<close> and a slice that covers a whole array of \<open>n\<close> bytes.\<close>

definition whole :: "nat \<Rightarrow> slice" where
  "whole n = \<lparr>off = 0, len = n, cap = n\<rparr>"

text \<open>\<^verbatim>\<open>s[lo:hi]\<close>: Go requires \<open>lo \<le> hi \<le> cap(s)\<close>.\<close>

definition reslice :: "slice \<Rightarrow> nat \<Rightarrow> nat \<Rightarrow> slice option" where
  "reslice s lo hi =
     (if lo \<le> hi \<and> hi \<le> cap s
      then Some \<lparr>off = off s + lo, len = hi - lo, cap = cap s - lo\<rparr>
      else None)"

text \<open>\<^verbatim>\<open>s[lo:]\<close> is \<^verbatim>\<open>s[lo:len(s)]\<close> and \<^verbatim>\<open>s[:hi]\<close> is \<^verbatim>\<open>s[0:hi]\<close>.\<close>

definition slice_from :: "slice \<Rightarrow> nat \<Rightarrow> slice option" where
  "slice_from s lo = reslice s lo (len s)"

definition slice_to :: "slice \<Rightarrow> nat \<Rightarrow> slice option" where
  "slice_to s hi = reslice s 0 hi"

text \<open>\<^verbatim>\<open>s[i]\<close> as a read and as a store; both panic unless \<open>i < len(s)\<close>.\<close>

definition index :: "bytes \<Rightarrow> slice \<Rightarrow> nat \<Rightarrow> byte option" where
  "index mem s i = (if i < len s then Some (mem ! (off s + i)) else None)"

definition store :: "bytes \<Rightarrow> slice \<Rightarrow> nat \<Rightarrow> byte \<Rightarrow> bytes option" where
  "store mem s i v = (if i < len s then Some (mem[off s + i := v]) else None)"

text \<open>The bytes a slice shows.\<close>

definition contents :: "bytes \<Rightarrow> slice \<Rightarrow> bytes" where
  "contents mem s = take (len s) (drop (off s) mem)"

section \<open>The gvisor library functions the endpoint calls\<close>

text \<open>
  \<^verbatim>\<open>encoding/binary\<close>, \<^verbatim>\<open>gvisor/pkg/tcpip/checksum\<close> and
  \<^verbatim>\<open>gvisor/pkg/tcpip/header\<close> are dependencies of the repository, not part of it.
  The functions the endpoint calls are rendered from their library definitions, the
  checksum in the plain form of RFC 1071 that the library documents (a 32 bit accumulator
  over big-endian 16 bit words, an odd last byte taken as the high byte of a word, then
  folded by \<^verbatim>\<open>Combine\<close>).
\<close>

definition Uint16 :: "bytes \<Rightarrow> slice \<Rightarrow> 16 word option" where
  "Uint16 mem b = do {
     b1 \<leftarrow> index mem b 1;
     b0 \<leftarrow> index mem b 0;
     Some (ucast b1 OR push_bit 8 (ucast b0))
   }"

definition PutUint16 :: "bytes \<Rightarrow> slice \<Rightarrow> 16 word \<Rightarrow> bytes option" where
  "PutUint16 mem b v = do {
     _ \<leftarrow> index mem b 1;
     mem \<leftarrow> store mem b 0 (ucast (drop_bit 8 v));
     store mem b 1 (ucast v)
   }"

definition Combine :: "16 word \<Rightarrow> 16 word \<Rightarrow> 16 word" where
  "Combine a b = (let v = (ucast a :: 32 word) + ucast b in ucast (v + drop_bit 16 v))"

fun sumPairs :: "bytes \<Rightarrow> 32 word \<Rightarrow> 32 word" where
  "sumPairs (a # b # rest) v = sumPairs rest (v + (push_bit 8 (ucast a) + ucast b))"
| "sumPairs _ v = v"

definition calculateChecksum :: "bytes \<Rightarrow> 32 word \<Rightarrow> 16 word" where
  "calculateChecksum buf initial =
     (let l = length buf;
          v = (if odd l then initial + push_bit 8 (ucast (buf ! (l - 1))) else initial);
          l = (if odd l then l - 1 else l);
          v = sumPairs (take l buf) v
      in Combine (ucast v) (ucast (drop_bit 16 v)))"

definition Checksum :: "bytes \<Rightarrow> 16 word \<Rightarrow> 16 word" where
  "Checksum buf initial = calculateChecksum buf (ucast initial)"

definition Put :: "bytes \<Rightarrow> slice \<Rightarrow> 16 word \<Rightarrow> bytes option" where
  "Put mem b xsum = PutUint16 mem b xsum"

text \<open>\<^verbatim>\<open>header.IPVersion\<close>: \<open>-1\<close> on an empty slice, else the high nibble of byte 0.\<close>

definition IPVersion :: "bytes \<Rightarrow> slice \<Rightarrow> int" where
  "IPVersion mem b = (if len b < 1 then - 1 else uint (drop_bit 4 (mem ! off b)))"

definition IPv4Version :: int where "IPv4Version = 4"
definition IPv6Version :: int where "IPv6Version = 6"

datatype NetworkProtocolNumber = IPv4ProtocolNumber | IPv6ProtocolNumber

type_synonym TransportProtocolNumber = "32 word"

definition UDPProtocolNumber :: TransportProtocolNumber where "UDPProtocolNumber = 17"
definition TCPProtocolNumber :: TransportProtocolNumber where "TCPProtocolNumber = 6"

text \<open>
  \<^verbatim>\<open>header.PseudoHeaderChecksum(protocol, srcAddr, dstAddr, totalLen)\<close>; the
  addresses arrive as copies of their bytes.
\<close>

definition PseudoHeaderChecksum ::
  "TransportProtocolNumber \<Rightarrow> bytes \<Rightarrow> bytes \<Rightarrow> 16 word \<Rightarrow> 16 word" where
  "PseudoHeaderChecksum protocol srcAddr dstAddr totalLen =
     (let xsum = Checksum srcAddr 0;
          xsum = Checksum dstAddr xsum;
          tmp = [ucast (drop_bit 8 totalLen), ucast totalLen];
          xsum = Checksum tmp xsum
      in Checksum [0, ucast protocol] xsum)"

subsection \<open>header.IPv4\<close>

definition IPv4_HeaderLength :: "bytes \<Rightarrow> slice \<Rightarrow> byte option" where
  "IPv4_HeaderLength mem b = do { v \<leftarrow> index mem b 0; Some ((v AND 0x0F) * 4) }"

definition IPv4_TotalLength :: "bytes \<Rightarrow> slice \<Rightarrow> 16 word option" where
  "IPv4_TotalLength mem b = do { s \<leftarrow> slice_from b 2; Uint16 mem s }"

definition IPv4_PayloadLength :: "bytes \<Rightarrow> slice \<Rightarrow> 16 word option" where
  "IPv4_PayloadLength mem b = do {
     tl \<leftarrow> IPv4_TotalLength mem b;
     hl \<leftarrow> IPv4_HeaderLength mem b;
     Some (tl - ucast hl)
   }"

definition IPv4_Payload :: "bytes \<Rightarrow> slice \<Rightarrow> slice option" where
  "IPv4_Payload mem b = do {
     hl \<leftarrow> IPv4_HeaderLength mem b;
     s \<leftarrow> slice_from b (unat hl);
     pl \<leftarrow> IPv4_PayloadLength mem b;
     slice_to s (unat pl)
   }"

definition IPv4_CalculateChecksum :: "bytes \<Rightarrow> slice \<Rightarrow> 16 word option" where
  "IPv4_CalculateChecksum mem b = do {
     hl \<leftarrow> IPv4_HeaderLength mem b;
     s \<leftarrow> slice_to b (unat hl);
     Some (Checksum (contents mem s) 0)
   }"

definition IPv4_SetChecksum :: "bytes \<Rightarrow> slice \<Rightarrow> 16 word \<Rightarrow> bytes option" where
  "IPv4_SetChecksum mem b v = do { s \<leftarrow> slice_from b 10; Put mem s v }"

definition IPv4_TransportProtocol :: "bytes \<Rightarrow> slice \<Rightarrow> TransportProtocolNumber option" where
  "IPv4_TransportProtocol mem b = do { p \<leftarrow> index mem b 9; Some (ucast p) }"

definition IPv4_SourceAddress :: "bytes \<Rightarrow> slice \<Rightarrow> bytes option" where
  "IPv4_SourceAddress mem b = do { s \<leftarrow> reslice b 12 16; Some (contents mem s) }"

definition IPv4_DestinationAddress :: "bytes \<Rightarrow> slice \<Rightarrow> bytes option" where
  "IPv4_DestinationAddress mem b = do { s \<leftarrow> reslice b 16 20; Some (contents mem s) }"

subsection \<open>header.IPv6\<close>

definition IPv6_PayloadLength :: "bytes \<Rightarrow> slice \<Rightarrow> 16 word option" where
  "IPv6_PayloadLength mem b = do { s \<leftarrow> slice_from b 4; Uint16 mem s }"

definition IPv6_Payload :: "bytes \<Rightarrow> slice \<Rightarrow> slice option" where
  "IPv6_Payload mem b = do {
     s \<leftarrow> slice_from b 40;
     pl \<leftarrow> IPv6_PayloadLength mem b;
     slice_to s (unat pl)
   }"

definition IPv6_TransportProtocol :: "bytes \<Rightarrow> slice \<Rightarrow> TransportProtocolNumber option" where
  "IPv6_TransportProtocol mem b = do { p \<leftarrow> index mem b 6; Some (ucast p) }"

definition IPv6_SourceAddress :: "bytes \<Rightarrow> slice \<Rightarrow> bytes option" where
  "IPv6_SourceAddress mem b = do { s \<leftarrow> reslice b 8 24; Some (contents mem s) }"

definition IPv6_DestinationAddress :: "bytes \<Rightarrow> slice \<Rightarrow> bytes option" where
  "IPv6_DestinationAddress mem b = do { s \<leftarrow> reslice b 24 40; Some (contents mem s) }"

subsection \<open>header.UDP and header.TCP\<close>

definition UDP_Length :: "bytes \<Rightarrow> slice \<Rightarrow> 16 word option" where
  "UDP_Length mem b = do { s \<leftarrow> slice_from b 4; Uint16 mem s }"

definition UDP_Payload :: "slice \<Rightarrow> slice option" where
  "UDP_Payload b = slice_from b 8"

definition UDP_SetChecksum :: "bytes \<Rightarrow> slice \<Rightarrow> 16 word \<Rightarrow> bytes option" where
  "UDP_SetChecksum mem b xsum = do { s \<leftarrow> slice_from b 6; Put mem s xsum }"

definition UDP_CalculateChecksum :: "bytes \<Rightarrow> slice \<Rightarrow> 16 word \<Rightarrow> 16 word option" where
  "UDP_CalculateChecksum mem b partialChecksum = do {
     s \<leftarrow> slice_to b 8;
     Some (Checksum (contents mem s) partialChecksum)
   }"

definition TCP_DataOffset :: "bytes \<Rightarrow> slice \<Rightarrow> byte option" where
  "TCP_DataOffset mem b = do { v \<leftarrow> index mem b 12; Some (drop_bit 4 v * 4) }"

definition TCP_Payload :: "bytes \<Rightarrow> slice \<Rightarrow> slice option" where
  "TCP_Payload mem b = do { d \<leftarrow> TCP_DataOffset mem b; slice_from b (unat d) }"

definition TCP_SetChecksum :: "bytes \<Rightarrow> slice \<Rightarrow> 16 word \<Rightarrow> bytes option" where
  "TCP_SetChecksum mem b xsum = do { s \<leftarrow> slice_from b 16; Put mem s xsum }"

definition TCP_CalculateChecksum :: "bytes \<Rightarrow> slice \<Rightarrow> 16 word \<Rightarrow> 16 word option" where
  "TCP_CalculateChecksum mem b partialChecksum = do {
     d \<leftarrow> TCP_DataOffset mem b;
     s \<leftarrow> slice_to b (unat d);
     Some (Checksum (contents mem s) partialChecksum)
   }"

section \<open>The stack's channel endpoint\<close>

text \<open>
  The endpoint embeds gvisor's \<^verbatim>\<open>channel.Endpoint\<close>.  Of it the code uses
  \<^verbatim>\<open>InjectInbound\<close>, which hands a packet and its network protocol number to the
  dispatcher registered by \<^verbatim>\<open>Attach\<close>, and \<^verbatim>\<open>Read\<close>, the non-blocking
  dequeue of the outbound queue.  The model keeps the packets handed to the dispatcher, in
  order, and the outbound queue.  An outbound packet is its network header, its transport
  header and its payload, a list of views that \<^verbatim>\<open>ToView\<close> or
  \<^verbatim>\<open>Flatten\<close> joins.
\<close>

record PacketBuffer =
  NetworkHeader :: bytes
  TransportHeader :: bytes
  Data :: "bytes list"

record channel =
  inbound :: "(NetworkProtocolNumber \<times> bytes) list"
  outbound :: "PacketBuffer list"

definition InjectInbound :: "channel \<Rightarrow> NetworkProtocolNumber \<Rightarrow> bytes \<Rightarrow> channel" where
  "InjectInbound e protocol pkt = e\<lparr>inbound := inbound e @ [(protocol, pkt)]\<rparr>"

text \<open>\<^verbatim>\<open>Read\<close>: the next queued packet if there is one (nil, or \<^verbatim>\<open>ok = false\<close>, if not).\<close>

definition Read :: "channel \<Rightarrow> PacketBuffer option \<times> channel" where
  "Read e = (case outbound e of
               [] \<Rightarrow> (None, e)
             | p # ps \<Rightarrow> (Some p, e\<lparr>outbound := ps\<rparr>))"

section \<open>The push producer entry point: endpoint.Write of the windows build\<close>

datatype goerror = DeviceError

text \<open>
  The three statements that end each UDP case of \<^verbatim>\<open>Write\<close> (lines 135 to 137 and
  158 to 160) and each TCP case (lines 141 to 143 and 164 to 166); \<open>sum0\<close> is the value
  of \<^verbatim>\<open>sum\<close> after the pseudo-header, \<open>sum1\<close> its value after the payload.
\<close>

definition udpChecksum :: "bytes \<Rightarrow> slice \<Rightarrow> 16 word \<Rightarrow> bytes option" where
  "udpChecksum mem hdr sum0 = do {
     p \<leftarrow> UDP_Payload hdr;
     let sum1 = Checksum (contents mem p) sum0;
     mem \<leftarrow> UDP_SetChecksum mem hdr 0;
     c \<leftarrow> UDP_CalculateChecksum mem hdr sum1;
     UDP_SetChecksum mem hdr (NOT c)
   }"

definition tcpChecksum :: "bytes \<Rightarrow> slice \<Rightarrow> 16 word \<Rightarrow> bytes option" where
  "tcpChecksum mem hdr sum0 = do {
     p \<leftarrow> TCP_Payload mem hdr;
     let sum1 = Checksum (contents mem p) sum0;
     mem \<leftarrow> TCP_SetChecksum mem hdr 0;
     c \<leftarrow> TCP_CalculateChecksum mem hdr sum1;
     TCP_SetChecksum mem hdr (NOT c)
   }"

text \<open>
  The IPv4 case of the switch, up to the packet that is injected: the header checksum
  (lines 128 to 130), then the inner switch on the transport protocol (lines 131 to 144).
\<close>

definition Write_IPv4_transport :: "bytes \<Rightarrow> slice \<Rightarrow> bytes option" where
  "Write_IPv4_transport mem pkt = do {
     ProtocolNumber \<leftarrow> IPv4_TransportProtocol mem pkt;
     if ProtocolNumber = UDPProtocolNumber then do {
       hdr \<leftarrow> IPv4_Payload mem pkt;
       dst \<leftarrow> IPv4_DestinationAddress mem pkt;
       src \<leftarrow> IPv4_SourceAddress mem pkt;
       l \<leftarrow> UDP_Length mem hdr;
       udpChecksum mem hdr (PseudoHeaderChecksum ProtocolNumber dst src l)
     } else if ProtocolNumber = TCPProtocolNumber then do {
       hdr \<leftarrow> IPv4_Payload mem pkt;
       dst \<leftarrow> IPv4_DestinationAddress mem pkt;
       src \<leftarrow> IPv4_SourceAddress mem pkt;
       l \<leftarrow> IPv4_PayloadLength mem pkt;
       tcpChecksum mem hdr (PseudoHeaderChecksum ProtocolNumber dst src l)
     } else Some mem
   }"

definition Write_IPv4 :: "bytes \<Rightarrow> slice \<Rightarrow> bytes option" where
  "Write_IPv4 mem pkt = do {
     mem \<leftarrow> IPv4_SetChecksum mem pkt 0;
     c \<leftarrow> IPv4_CalculateChecksum mem pkt;
     mem \<leftarrow> IPv4_SetChecksum mem pkt (NOT c);
     Write_IPv4_transport mem pkt
   }"

text \<open>The IPv6 case: no header checksum, only the inner switch (lines 154 to 167).\<close>

definition Write_IPv6 :: "bytes \<Rightarrow> slice \<Rightarrow> bytes option" where
  "Write_IPv6 mem pkt = do {
     ProtocolNumber \<leftarrow> IPv6_TransportProtocol mem pkt;
     if ProtocolNumber = UDPProtocolNumber then do {
       hdr \<leftarrow> IPv6_Payload mem pkt;
       dst \<leftarrow> IPv6_DestinationAddress mem pkt;
       src \<leftarrow> IPv6_SourceAddress mem pkt;
       l \<leftarrow> UDP_Length mem hdr;
       udpChecksum mem hdr (PseudoHeaderChecksum ProtocolNumber dst src l)
     } else if ProtocolNumber = TCPProtocolNumber then do {
       hdr \<leftarrow> IPv6_Payload mem pkt;
       dst \<leftarrow> IPv6_DestinationAddress mem pkt;
       src \<leftarrow> IPv6_SourceAddress mem pkt;
       l \<leftarrow> IPv6_PayloadLength mem pkt;
       tcpChecksum mem hdr (PseudoHeaderChecksum ProtocolNumber dst src l)
     } else Some mem
   }"

text \<open>
  \<^verbatim>\<open>Write\<close> copies \<open>b\<close> into a fresh array of exactly \<open>len(b)\<close> bytes, repairs the
  checksums in place, injects the array and returns \<^verbatim>\<open>(len(buf), nil)\<close>.  The
  result is the returned pair and the channel; \<open>None\<close> is a panic.
\<close>

definition Write :: "channel \<Rightarrow> bytes \<Rightarrow> ((nat \<times> goerror option) \<times> channel) option" where
  "Write e b =
     (let mem = b; buf = whole (length b) in
      if IPVersion mem buf = IPv4Version then do {
        mem \<leftarrow> Write_IPv4 mem buf;
        Some ((len buf, None), InjectInbound e IPv4ProtocolNumber (contents mem buf))
      } else if IPVersion mem buf = IPv6Version then do {
        mem \<leftarrow> Write_IPv6 mem buf;
        Some ((len buf, None), InjectInbound e IPv6ProtocolNumber (contents mem buf))
      } else Some ((len buf, None), e))"

section \<open>Devices and the endpoints\<close>

text \<open>
  A device is known to the endpoint through the interfaces its dynamic type implements:
  \<^verbatim>\<open>io.Writer\<close> (part of the Windows \<^verbatim>\<open>Device\<close> interface), \<^verbatim>\<open>Reader\<close>,
  \<^verbatim>\<open>io.WriterTo\<close>, \<^verbatim>\<open>ReaderOffset\<close> and \<^verbatim>\<open>WriterOffset\<close>.  What it
  delivers is the result of its \<open>i\<close>-th read call: an error, or the bytes it stored into
  the buffer it was given (from index 0 on) and the count it returned.  What it was sent
  is kept as the list of buffers written, each with the offset passed along.  The MTU is
  taken to be a natural number: \<^verbatim>\<open>make\<close> panics on a negative length.
\<close>

record Device =
  isWriter :: bool
  isReader :: bool
  isWriterTo :: bool
  isReaderOffset :: bool
  isWriterOffset :: bool

datatype read_result = ReadError | ReadOk bytes int

type_synonym reads = "nat \<Rightarrow> read_result"

text \<open>A fresh zeroed buffer of \<open>bsize\<close> bytes after the device stored \<open>data\<close> into it.\<close>

definition fill :: "nat \<Rightarrow> bytes \<Rightarrow> bytes" where
  "fill bsize data = take bsize data @ replicate (bsize - length data) 0"

text \<open>The switch on \<^verbatim>\<open>header.IPVersion(buf)\<close> that ends both read loops.\<close>

definition forward :: "channel \<Rightarrow> bytes \<Rightarrow> slice \<Rightarrow> channel" where
  "forward ep mem buf =
     (if IPVersion mem buf = IPv4Version
      then InjectInbound ep IPv4ProtocolNumber (contents mem buf)
      else if IPVersion mem buf = IPv6Version
      then InjectInbound ep IPv6ProtocolNumber (contents mem buf)
      else ep)"

text \<open>
  The state of a read loop: how many reads it has issued, and the channel endpoint.  A
  loop ends when a read fails; it does not end otherwise, so the loops are partial
  functions and \<open>None\<close> is a loop that runs forever.  A slice expression out of range
  ends the goroutine by a panic.
\<close>

record pump_state =
  issued :: nat
  ep :: channel

datatype outcome = Stopped pump_state | Panicked pump_state

subsection \<open>The linux and darwin build\<close>

text \<open>The goroutine of \<^verbatim>\<open>Attach\<close>: \<^verbatim>\<open>ReadOffset(buf, 4)\<close>, then \<^verbatim>\<open>buf[4 : 4+n]\<close>.\<close>

partial_function (option) pump_unix :: "reads \<Rightarrow> nat \<Rightarrow> pump_state \<Rightarrow> outcome option" where
  "pump_unix r bsize st =
     (case r (issued st) of
        ReadError \<Rightarrow> Some (Stopped (st\<lparr>issued := issued st + 1\<rparr>))
      | ReadOk data n \<Rightarrow>
          (let mem = fill bsize data;
               buf = whole bsize;
               st = st\<lparr>issued := issued st + 1\<rparr>
           in if n < 0 then Some (Panicked st)
              else case reslice buf 4 (4 + nat n) of
                     None \<Rightarrow> Some (Panicked st)
                   | Some buf \<Rightarrow> pump_unix r bsize (st\<lparr>ep := forward (ep st) mem buf\<rparr>)))"

text \<open>
  \<^verbatim>\<open>append\<close> on the scratch buffer.  The slice it returns is either still a prefix of
  the scratch array (\<open>InPlace l\<close>, its first \<open>l\<close> bytes), which \<^verbatim>\<open>append\<close> then
  overwrites, or, once the capacity was exceeded, a newly allocated array.
\<close>

datatype appended = InPlace nat | Moved bytes

fun go_append :: "bytes \<Rightarrow> appended \<Rightarrow> bytes \<Rightarrow> bytes \<times> appended" where
  "go_append scratch (InPlace l) xs =
     (if l + length xs \<le> length scratch
      then (take l scratch @ xs @ drop (l + length xs) scratch, InPlace (l + length xs))
      else (scratch, Moved (take l scratch @ xs)))"
| "go_append scratch (Moved ys) xs = (scratch, Moved (ys @ xs))"

fun shown :: "bytes \<Rightarrow> appended \<Rightarrow> bytes" where
  "shown scratch (InPlace l) = take l scratch"
| "shown scratch (Moved ys) = ys"

fun within :: "bytes \<Rightarrow> appended \<Rightarrow> bool" where
  "within scratch (InPlace l) \<longleftrightarrow> l \<le> length scratch"
| "within scratch (Moved ys) \<longleftrightarrow> True"

record Endpoint_unix =
  u_Endpoint :: channel
  u_mtu :: nat
  u_dev :: Device
  u_buf :: bytes
  u_written :: "(bytes \<times> nat) list"

datatype panic = InterfaceConversion | NotValidDevice

text \<open>\<^verbatim>\<open>NewEndpoint\<close>: the type assertion \<^verbatim>\<open>dev.(WriterOffset)\<close> panics if it fails.\<close>

definition NewEndpoint_unix :: "Device \<Rightarrow> nat \<Rightarrow> panic + Endpoint_unix" where
  "NewEndpoint_unix dev mtu =
     (if isWriterOffset dev
      then Inr \<lparr>u_Endpoint = \<lparr>inbound = [], outbound = []\<rparr>, u_mtu = mtu, u_dev = dev,
                u_buf = replicate (4 + mtu) 0, u_written = []\<rparr>
      else Inl InterfaceConversion)"

text \<open>
  \<^verbatim>\<open>Attach\<close>: the arguments of the \<^verbatim>\<open>go\<close> statement are evaluated first, and
  \<^verbatim>\<open>e.dev.(ReaderOffset)\<close> panics if it fails; otherwise the read loop is started
  with buffers of \<open>4 + mtu\<close> bytes.
\<close>

datatype producer = ReadLoop nat | WriteToLoop

definition Attach_unix :: "Endpoint_unix \<Rightarrow> panic + producer" where
  "Attach_unix e =
     (if isReaderOffset (u_dev e) then Inr (ReadLoop (4 + u_mtu e))
      else Inl InterfaceConversion)"

text \<open>\<^verbatim>\<open>WriteNotify\<close>; \<open>None\<close> is a panic.\<close>

definition WriteNotify_unix :: "Endpoint_unix \<Rightarrow> Endpoint_unix option" where
  "WriteNotify_unix e =
     (case Read (u_Endpoint e) of
        (None, q) \<Rightarrow> Some e
      | (Some info, q) \<Rightarrow>
          (let (scratch, buf) = go_append (u_buf e) (InPlace 4) (NetworkHeader info);
               (scratch, buf) = go_append scratch buf (TransportHeader info);
               (scratch, buf) = go_append scratch buf (concat (Data info))
           in Some (e\<lparr>u_Endpoint := q, u_buf := scratch,
                      u_written := u_written e @ [(shown scratch buf, 4)]\<rparr>)))"

subsection \<open>The windows build\<close>

text \<open>The WinTun goroutine of \<^verbatim>\<open>Attach\<close>: \<^verbatim>\<open>Read(buf, 0)\<close>, then \<^verbatim>\<open>buf[:nr]\<close>.\<close>

partial_function (option) pump_windows :: "reads \<Rightarrow> nat \<Rightarrow> pump_state \<Rightarrow> outcome option" where
  "pump_windows r bsize st =
     (case r (issued st) of
        ReadError \<Rightarrow> Some (Stopped (st\<lparr>issued := issued st + 1\<rparr>))
      | ReadOk data nr \<Rightarrow>
          (let mem = fill bsize data;
               buf = whole bsize;
               st = st\<lparr>issued := issued st + 1\<rparr>
           in if nr < 0 then Some (Panicked st)
              else case slice_to buf (nat nr) of
                     None \<Rightarrow> Some (Panicked st)
                   | Some buf \<Rightarrow> pump_windows r bsize (st\<lparr>ep := forward (ep st) mem buf\<rparr>)))"

record Endpoint_windows =
  w_Endpoint :: channel
  w_Device :: Device
  w_mtu :: nat
  w_buff :: bytes
  w_written :: "bytes list"

definition NewEndpoint_windows :: "Device \<Rightarrow> nat \<Rightarrow> panic + Endpoint_windows" where
  "NewEndpoint_windows dev mtu =
     (if \<not> isWriter dev then Inl NotValidDevice
      else Inr \<lparr>w_Endpoint = \<lparr>inbound = [], outbound = []\<rparr>, w_Device = dev, w_mtu = mtu,
                w_buff = replicate mtu 0, w_written = []\<rparr>)"

text \<open>
  \<^verbatim>\<open>Attach\<close>: a \<^verbatim>\<open>Reader\<close> gets the read loop with buffers of \<open>mtu + 4\<close> bytes;
  otherwise an \<^verbatim>\<open>io.WriterTo\<close> gets a goroutine in which the device calls
  \<^verbatim>\<open>Write\<close>; otherwise \<^verbatim>\<open>log.Panic\<close>.
\<close>

definition Attach_windows :: "Endpoint_windows \<Rightarrow> panic + producer" where
  "Attach_windows e =
     (if \<not> isReader (w_Device e)
      then (if \<not> isWriterTo (w_Device e) then Inl NotValidDevice else Inr WriteToLoop)
      else Inr (ReadLoop (w_mtu e + 4)))"

text \<open>
  \<^verbatim>\<open>WriteNotify\<close>.  \<^verbatim>\<open>Read\<close> returns a nil pointer when the queue is empty, and
  the header view of a nil packet dereferences it: that panic is \<open>None\<close>.
\<close>

definition WriteNotify_windows :: "Endpoint_windows \<Rightarrow> Endpoint_windows option" where
  "WriteNotify_windows e =
     (case Read (w_Endpoint e) of
        (None, q) \<Rightarrow> None
      | (Some pkt, q) \<Rightarrow>
          (let (scratch, buf) = go_append (w_buff e) (InPlace 0) (NetworkHeader pkt);
               (scratch, buf) = go_append scratch buf (TransportHeader pkt);
               (scratch, buf) = go_append scratch buf (concat (Data pkt))
           in Some (e\<lparr>w_Endpoint := q, w_buff := scratch,
                      w_written := w_written e @ [shown scratch buf]\<rparr>)))"

text \<open>Construction followed by attachment, on either build.\<close>

datatype build = LinuxDarwin | Windows

definition construct_attach :: "build \<Rightarrow> Device \<Rightarrow> nat \<Rightarrow> panic + producer" where
  "construct_attach bld dev mtu =
     (case bld of
        LinuxDarwin \<Rightarrow>
          (case NewEndpoint_unix dev mtu of Inl p \<Rightarrow> Inl p | Inr e \<Rightarrow> Attach_unix e)
      | Windows \<Rightarrow>
          (case NewEndpoint_windows dev mtu of Inl p \<Rightarrow> Inl p | Inr e \<Rightarrow> Attach_windows e))"

text \<open>The three capability variants of a device.\<close>

definition offset_variant :: "Device \<Rightarrow> bool" where
  "offset_variant dev \<longleftrightarrow> isReaderOffset dev \<and> isWriterOffset dev"

definition direct_variant :: "Device \<Rightarrow> bool" where
  "direct_variant dev \<longleftrightarrow> isReader dev \<and> isWriter dev"

definition push_variant :: "Device \<Rightarrow> bool" where
  "push_variant dev \<longleftrightarrow> isWriterTo dev \<and> isWriter dev"

section \<open>What a receiver checks\<close>

text \<open>
  The notions the properties are stated with, written on plain byte lists and natural
  numbers, independently of the code above: the ones'-complement fold of a sum, the sum of
  the big-endian 16 bit words of a byte list, well-formed headers, and the byte sequence a
  receiver sums to verify a transport checksum (RFC 768, RFC 793 and RFC 8200: source
  address, destination address, zero, protocol and length, then the segment).
\<close>

definition oc :: "nat \<Rightarrow> nat" where
  "oc n = (if n = 0 then 0 else (n - 1) mod 65535 + 1)"

fun wsum :: "bytes \<Rightarrow> nat" where
  "wsum (a # b # rest) = 256 * unat a + unat b + wsum rest"
| "wsum [a] = 256 * unat a"
| "wsum [] = 0"

definition u16_at :: "bytes \<Rightarrow> nat \<Rightarrow> nat" where
  "u16_at b i = 256 * unat (b ! i) + unat (b ! (i + 1))"

definition be16 :: "nat \<Rightarrow> bytes" where
  "be16 n = [word_of_nat (n div 256), word_of_nat n]"

definition version_nibble :: "bytes \<Rightarrow> nat option" where
  "version_nibble b = (case b of [] \<Rightarrow> None | x # _ \<Rightarrow> Some (unat x div 16))"

definition ipv4_hlen :: "bytes \<Rightarrow> nat" where
  "ipv4_hlen b = 4 * (unat (b ! 0) mod 16)"

definition ipv4_header_ok :: "bytes \<Rightarrow> bool" where
  "ipv4_header_ok b \<longleftrightarrow>
     20 \<le> length b \<and> version_nibble b = Some 4 \<and> 20 \<le> ipv4_hlen b \<and>
     ipv4_hlen b \<le> u16_at b 2 \<and> u16_at b 2 \<le> length b"

definition ipv4_segment :: "bytes \<Rightarrow> bytes" where
  "ipv4_segment b = take (u16_at b 2 - ipv4_hlen b) (drop (ipv4_hlen b) b)"

definition ipv6_header_ok :: "bytes \<Rightarrow> bool" where
  "ipv6_header_ok b \<longleftrightarrow>
     40 \<le> length b \<and> version_nibble b = Some 6 \<and> 40 + u16_at b 4 \<le> length b"

definition ipv6_segment :: "bytes \<Rightarrow> bytes" where
  "ipv6_segment b = take (u16_at b 4) (drop 40 b)"

definition udp_segment_ok :: "bytes \<Rightarrow> bool" where
  "udp_segment_ok seg \<longleftrightarrow> 8 \<le> length seg \<and> u16_at seg 4 = length seg"

definition tcp_doff :: "bytes \<Rightarrow> nat" where
  "tcp_doff seg = 4 * (unat (seg ! 12) div 16)"

definition tcp_segment_ok :: "bytes \<Rightarrow> bool" where
  "tcp_segment_ok seg \<longleftrightarrow> 20 \<le> length seg \<and> 20 \<le> tcp_doff seg \<and> tcp_doff seg \<le> length seg"

text \<open>A valid TCP or UDP segment embedded in an IPv4 or IPv6 packet.\<close>

definition valid_transport4 :: "bytes \<Rightarrow> bool" where
  "valid_transport4 b \<longleftrightarrow>
     ipv4_header_ok b \<and>
     (unat (b ! 9) = 17 \<and> udp_segment_ok (ipv4_segment b) \<or>
      unat (b ! 9) = 6 \<and> tcp_segment_ok (ipv4_segment b))"

definition valid_transport6 :: "bytes \<Rightarrow> bool" where
  "valid_transport6 b \<longleftrightarrow>
     ipv6_header_ok b \<and>
     (unat (b ! 6) = 17 \<and> udp_segment_ok (ipv6_segment b) \<or>
      unat (b ! 6) = 6 \<and> tcp_segment_ok (ipv6_segment b))"

text \<open>The pseudo-headers, and the bytes whose ones'-complement sum the receiver takes.\<close>

definition pseudo4 :: "bytes \<Rightarrow> bytes" where
  "pseudo4 b = take 4 (drop 12 b) @ take 4 (drop 16 b) @ [0, b ! 9] @
               be16 (length (ipv4_segment b))"

definition pseudo6 :: "bytes \<Rightarrow> bytes" where
  "pseudo6 b = take 16 (drop 8 b) @ take 16 (drop 24 b) @
               [0, 0] @ be16 (length (ipv6_segment b)) @ [0, 0, 0, b ! 6]"

definition transport_sum :: "bytes \<Rightarrow> 16 word" where
  "transport_sum b =
     (if version_nibble b = Some 4 then Checksum (pseudo4 b @ ipv4_segment b) 0
      else Checksum (pseudo6 b @ ipv6_segment b) 0)"

definition ipv4_header_sum :: "bytes \<Rightarrow> 16 word" where
  "ipv4_header_sum b = Checksum (take (ipv4_hlen b) b) 0"

text \<open>
  What a read loop is expected to forward, read off the device's results alone: the
  payload region of a successful read (\<open>n\<close> bytes after the frame prefix of width
  \<open>w\<close>), tagged with the protocol its version nibble names, or nothing when the nibble
  is neither 4 nor 6.  A read succeeds when it returns no error and a count that fits the
  buffer behind the prefix.
\<close>

definition payload :: "nat \<Rightarrow> nat \<Rightarrow> read_result \<Rightarrow> bytes" where
  "payload w bsize rr =
     (case rr of ReadError \<Rightarrow> [] | ReadOk data n \<Rightarrow> take (nat n) (drop w (fill bsize data)))"

definition read_ok :: "nat \<Rightarrow> nat \<Rightarrow> read_result \<Rightarrow> bool" where
  "read_ok w bsize rr =
     (case rr of ReadError \<Rightarrow> False | ReadOk data n \<Rightarrow> 0 \<le> n \<and> w + nat n \<le> bsize)"

definition known_version :: "bytes \<Rightarrow> bool" where
  "known_version pkt \<longleftrightarrow> version_nibble pkt = Some 4 \<or> version_nibble pkt = Some 6"

definition tagged :: "bytes \<Rightarrow> (NetworkProtocolNumber \<times> bytes) list" where
  "tagged pkt =
     (if version_nibble pkt = Some 4 then [(IPv4ProtocolNumber, pkt)]
      else if version_nibble pkt = Some 6 then [(IPv6ProtocolNumber, pkt)]
      else [])"

definition forwarded :: "nat \<Rightarrow> nat \<Rightarrow> reads \<Rightarrow> nat \<Rightarrow> nat \<Rightarrow> (NetworkProtocolNumber \<times> bytes) list" where
  "forwarded w bsize r j k = concat (map (\<lambda>i. tagged (payload w bsize (r i))) [j..<j + k])"

text \<open>Storing a 16 bit value, high byte first, at index \<open>i\<close> of a byte list.\<close>

definition set16 :: "bytes \<Rightarrow> nat \<Rightarrow> 16 word \<Rightarrow> bytes" where
  "set16 xs i v = xs[i := ucast (drop_bit 8 v), i + 1 := ucast v]"

text \<open>
  What \<^verbatim>\<open>Write\<close> needs of the payload of a packet with a well-formed header, so that
  every transport field it reads or stores lies inside the payload: nothing when the
  protocol is neither UDP nor TCP; the 8 byte header for UDP; for TCP the checksum field
  (bytes 16 and 17) and a data offset that stays inside the payload.
\<close>

definition segment_readable :: "nat \<Rightarrow> bytes \<Rightarrow> bool" where
  "segment_readable protocol seg =
     (if protocol = 17 then 8 \<le> length seg
      else if protocol = 6 then 18 \<le> length seg \<and> tcp_doff seg \<le> length seg
      else True)"

text \<open>Where the transport checksum field of a TCP or UDP packet lies.\<close>

definition transport_field :: "bytes \<Rightarrow> nat" where
  "transport_field b =
     (if version_nibble b = Some 4
      then ipv4_hlen b + (if unat (b ! 9) = 17 then 6 else 16)
      else 40 + (if unat (b ! 6) = 17 then 6 else 16))"

section \<open>Sample inputs\<close>

text \<open>Concrete inputs at which the theorems below are instantiated.\<close>

definition no_traffic :: channel where
  "no_traffic = \<lparr>inbound = [], outbound = []\<rparr>"

definition sample_ipv4 :: bytes where
  "sample_ipv4 = [0x45, 0, 0, 20, 0, 0, 0, 0, 64, 1, 0, 0, 10, 0, 0, 1, 10, 0, 0, 2]"

definition sample_unknown :: bytes where
  "sample_unknown = [0x50, 1, 2]"

text \<open>An offset device: an IPv4 packet, a packet of unknown version, then an error.\<close>

definition sample_reads_offset :: reads where
  "sample_reads_offset i =
     (if i = 0 then ReadOk ([0, 0, 0, 2] @ sample_ipv4) 20
      else if i = 1 then ReadOk ([0, 0, 0, 2] @ sample_unknown) 3
      else ReadError)"

definition sample_reads_direct :: reads where
  "sample_reads_direct i =
     (if i = 0 then ReadOk sample_ipv4 20
      else if i = 1 then ReadOk sample_unknown 3
      else ReadError)"

text \<open>Devices that deliver one packet of unknown version and then fail.\<close>

definition unknown_reads_offset :: reads where
  "unknown_reads_offset i = (if i = 0 then ReadOk ([0, 0, 0, 2] @ sample_unknown) 3 else ReadError)"

definition unknown_reads_direct :: reads where
  "unknown_reads_direct i = (if i = 0 then ReadOk sample_unknown 3 else ReadError)"

text \<open>
  A 20 byte IPv4 header, an 8 byte UDP header and 4 bytes of payload, both checksum
  fields zero; and an input cut off after its first byte.
\<close>

definition sample_udp4 :: bytes where
  "sample_udp4 =
     [0x45, 0, 0, 32, 0, 0, 0, 0, 64, 17, 0, 0, 10, 0, 0, 1, 10, 0, 0, 2,
      0x30, 0x39, 0, 53, 0, 12, 0, 0,
      1, 2, 3, 4]"

definition sample_truncated :: bytes where
  "sample_truncated = [0x45]"

text \<open>
  A well-formed IPv4 header with protocol TCP and 8 bytes of payload, as the last
  fragment of a TCP segment is.
\<close>

definition sample_tcp_fragment :: bytes where
  "sample_tcp_fragment =
     [0x45, 0, 0, 28, 0, 1, 0, 5, 64, 6, 0, 0, 10, 0, 0, 1, 10, 0, 0, 2,
      1, 2, 3, 4, 5, 6, 7, 8]"

text \<open>An IPv6 packet that carries a 20 byte TCP header and one byte of payload.\<close>

definition sample_tcp6 :: bytes where
  "sample_tcp6 =
     [0x60, 0, 0, 0, 0, 21, 6, 64,
      0x20, 0x01, 0x0D, 0xB8, 0, 0, 0, 0, 0, 0, 0, 0, 0, 0, 0, 1,
      0x20, 0x01, 0x0D, 0xB8, 0, 0, 0, 0, 0, 0, 0, 0, 0, 0, 0, 2,
      0x30, 0x39, 0, 80, 0, 0, 0, 1, 0, 0, 0, 0, 0x50, 0x02, 0xFF, 0xFF, 0, 0, 0, 0,
      0x41]"

section \<open>Ones'-complement arithmetic\<close>

lemma unat_byte_lt: "unat (a::byte) < 256"
  using unsigned_less[of a, where 'a=nat] by simp

lemma unat_u16_lt: "unat (a::16 word) < 65536"
  using unsigned_less[of a, where 'a=nat] by simp

lemma unat_u32_lt: "unat (a::32 word) < 4294967296"
  using unsigned_less[of a, where 'a=nat] by simp

lemma unat_ucast_byte32: "unat (ucast (a::byte) :: 32 word) = unat a"
  using unat_byte_lt[of a] by (simp add: unsigned_ucast_eq take_bit_eq_mod)

lemma unat_ucast_16_32: "unat (ucast (a::16 word) :: 32 word) = unat a"
  using unat_u16_lt[of a] by (simp add: unsigned_ucast_eq take_bit_eq_mod)

lemma unat_shl8: "unat (push_bit 8 (ucast (a::byte)) :: 32 word) = 256 * unat a"
  using unat_byte_lt[of a]
  by (simp add: push_bit_eq_mult unat_word_ariths unat_ucast_byte32)

lemma unat_pair: "unat (push_bit 8 (ucast (a::byte)) + ucast (b::byte) :: 32 word) = 256 * unat a + unat b"
proof -
  have "unat (push_bit 8 (ucast a) + ucast b :: 32 word) = (256 * unat a + unat b) mod 2 ^ 32"
    by (simp add: unat_word_ariths unat_shl8 unat_ucast_byte32)
  also have "\<dots> = 256 * unat a + unat b" using unat_byte_lt[of a] unat_byte_lt[of b] by simp
  finally show ?thesis .
qed

lemma unat_lo16: "unat (ucast (v::32 word) :: 16 word) = unat v mod 65536"
  by (simp add: unsigned_ucast_eq take_bit_eq_mod)

lemma unat_hi16: "unat (ucast (drop_bit 16 (v::32 word)) :: 16 word) = unat v div 65536"
proof -
  have "unat (drop_bit 16 v) = unat v div 65536"
    by (simp add: drop_bit_eq_div unat_div)
  moreover have "unat v div 65536 < 65536" using unat_u32_lt[of v] by simp
  ultimately show ?thesis by (simp add: unsigned_ucast_eq take_bit_eq_mod)
qed

lemma Combine_nat: "unat (Combine a b) = (unat a + unat b + (unat a + unat b) div 65536) mod 65536"
proof -
  let ?v = "(ucast a :: 32 word) + ucast b"
  have a: "unat a < 65536" "unat b < 65536" using unat_u16_lt[of a] unat_u16_lt[of b] by simp_all
  have s: "unat ?v = unat a + unat b"
    using a by (simp add: unat_word_ariths unat_ucast_16_32)
  have d: "unat (drop_bit 16 ?v) = (unat a + unat b) div 65536"
    by (simp add: drop_bit_eq_div unat_div s)
  have "unat (?v + drop_bit 16 ?v) = (unat a + unat b) + (unat a + unat b) div 65536"
    using a by (simp add: unat_word_ariths(1)[of ?v] s d)
  then show ?thesis
    by (simp add: Combine_def Let_def unsigned_ucast_eq take_bit_eq_mod)
qed

lemma oc_fold: "a < 65536 \<Longrightarrow> b < 65536 \<Longrightarrow> (a + b + (a + b) div 65536) mod 65536 = oc (a + b)"
  unfolding oc_def by (cases "a + b < 65536"; cases "a + b = 0") (auto simp: mod_if div_if)

lemma oc_mod: "oc n mod 65535 = n mod 65535"
proof (cases n)
  case 0
  then show ?thesis by (simp add: oc_def)
next
  case (Suc m)
  have "oc n = Suc (m mod 65535)" using Suc by (simp add: oc_def)
  then show ?thesis using Suc by (simp add: mod_Suc_eq)
qed

lemma oc_le: "oc n \<le> 65535"
  unfolding oc_def by (auto intro: Suc_leI)

lemma oc_zero: "oc n = 0 \<longleftrightarrow> n = 0"
  unfolding oc_def by auto

lemma oc_unique:
  assumes "r \<le> 65535" and "r mod 65535 = n mod 65535" and "r = 0 \<longleftrightarrow> n = 0"
  shows "r = oc n"
proof (cases "n = 0")
  case True
  then show ?thesis using assms by (simp add: oc_def)
next
  case False
  then have r: "0 < r" using assms by auto
  have o: "0 < oc n" "oc n \<le> 65535" using False oc_zero[of n] oc_le[of n] by auto
  have e: "r mod 65535 = oc n mod 65535" using assms(2) oc_mod[of n] by simp
  show ?thesis
  proof (cases "r = 65535")
    case True
    then have "oc n mod 65535 = 0" using e by simp
    then have "oc n = 65535" using o by (cases "oc n = 65535") auto
    then show ?thesis using True by simp
  next
    case False
    then have rl: "r < 65535" using assms(1) by simp
    then have "oc n mod 65535 = r" using e by simp
    then have "oc n \<noteq> 65535" using r by auto
    then have "oc n < 65535" using o by simp
    then show ?thesis using e rl by simp
  qed
qed

lemma oc_oc_add: "oc (oc a + b) = oc (a + b)"
proof (rule oc_unique)
  show "oc (oc a + b) \<le> 65535" by (rule oc_le)
  have "(oc a + b) mod 65535 = (a + b) mod 65535"
    by (metis mod_add_left_eq oc_mod)
  then show "oc (oc a + b) mod 65535 = (a + b) mod 65535"
    by (simp add: oc_mod)
  show "oc (oc a + b) = 0 \<longleftrightarrow> a + b = 0" by (simp add: oc_zero)
qed

lemma oc_split: "oc (v mod 65536 + v div 65536) = oc v"
proof (rule oc_unique)
  let ?l = "v mod 65536" and ?h = "v div 65536"
  show "oc (?l + ?h) \<le> 65535" by (rule oc_le)
  have v: "v = ?h * 65535 + (?l + ?h)" by simp
  have "(?h * 65535 + (?l + ?h)) mod 65535 = (?l + ?h) mod 65535"
    by (rule mod_mult_self3)
  then show "oc (?l + ?h) mod 65535 = v mod 65535"
    using v by (simp add: oc_mod)
  show "oc (?l + ?h) = 0 \<longleftrightarrow> v = 0" by (auto simp: oc_zero)
qed

lemma oc_compl: "oc (a + (65535 - oc a)) = 65535"
proof -
  have "oc (a + (65535 - oc a)) = oc (oc a + (65535 - oc a))" by (simp add: oc_oc_add)
  also have "oc a + (65535 - oc a) = 65535" using oc_le[of a] by simp
  finally show ?thesis by (simp add: oc_def)
qed

lemma sumPairs_nat:
  "even (length xs) \<Longrightarrow> unat v + wsum xs < 2 ^ 32 \<Longrightarrow> unat (sumPairs xs v) = unat v + wsum xs"
proof (induction xs v rule: sumPairs.induct)
  case (1 a b rest v)
  have p: "unat (v + (push_bit 8 (ucast a) + ucast b)) = unat v + (256 * unat a + unat b)"
    using "1.prems"(2) by (simp add: unat_word_ariths(1)[of v] unat_pair)
  show ?case using 1 p by simp
qed simp_all

lemma wsum_bound: "wsum xs \<le> 65535 * ((length xs + 1) div 2)"
proof (induction xs rule: wsum.induct)
  case (1 a b rest)
  then show ?case using unat_byte_lt[of a] unat_byte_lt[of b] by simp
next
  case (2 a)
  then show ?case using unat_byte_lt[of a] by simp
qed simp

lemma wsum_snoc_odd: "odd (length xs) \<Longrightarrow> wsum xs = wsum (take (length xs - 1) xs) + 256 * unat (xs ! (length xs - 1))"
proof (induction xs rule: wsum.induct)
  case (1 a b rest)
  then show ?case by (cases rest) auto
qed simp_all

lemma Combine_fold32:
  "unat (Combine (ucast (v::32 word)) (ucast (drop_bit 16 v))) = oc (unat v)"
proof -
  define n where "n = unat v"
  have n: "n div 65536 < 65536" using unat_u32_lt[of v] by (simp add: n_def)
  have "unat (Combine (ucast v) (ucast (drop_bit 16 v)))
      = (n mod 65536 + n div 65536 + (n mod 65536 + n div 65536) div 65536) mod 65536"
    unfolding Combine_nat unat_hi16 unfolding unat_lo16 n_def ..
  also have "\<dots> = oc (n mod 65536 + n div 65536)"
    using n by (intro oc_fold) simp_all
  also have "\<dots> = oc n" by (rule oc_split)
  finally show ?thesis by (simp add: n_def)
qed

lemma Checksum_nat:
  assumes "length xs \<le> 131069"
  shows "unat (Checksum xs init) = oc (unat init + wsum xs)"
proof -
  let ?l = "length xs"
  let ?v0 = "ucast init :: 32 word"
  let ?v1 = "if odd ?l then ?v0 + push_bit 8 (ucast (xs ! (?l - 1))) else ?v0"
  let ?l1 = "if odd ?l then ?l - 1 else ?l"
  let ?v2 = "sumPairs (take ?l1 xs) ?v1"
  have wb: "wsum xs \<le> 65535 * 65535"
  proof -
    have "(length xs + 1) div 2 \<le> 65535" using assms by simp
    then have "65535 * ((length xs + 1) div 2) \<le> 65535 * 65535" by simp
    then show ?thesis using wsum_bound[of xs] by linarith
  qed
  have i: "unat ?v0 = unat init" by (rule unat_ucast_16_32)
  have il: "unat init < 65536" by (rule unat_u16_lt)
  have w: "wsum xs = wsum (take ?l1 xs) + (if odd ?l then 256 * unat (xs ! (?l - 1)) else 0)"
    using wsum_snoc_odd[of xs] by simp
  have v1: "unat ?v1 = unat init + (if odd ?l then 256 * unat (xs ! (?l - 1)) else 0)"
    using unat_byte_lt[of "xs ! (?l - 1)"] il
    by (simp add: unat_word_ariths(1)[of ?v0] unat_shl8 i)
  have ev: "even (length (take ?l1 xs))" by auto
  have "unat ?v1 + wsum (take ?l1 xs) = unat init + wsum xs" using v1 w by simp
  moreover have "unat init + wsum xs < 2 ^ 32" using wb il by simp
  ultimately have v2: "unat ?v2 = unat init + wsum xs"
    using sumPairs_nat[OF ev, of ?v1] by simp
  have "unat (Combine (ucast ?v2) (ucast (drop_bit 16 ?v2))) = oc (unat ?v2)"
    by (rule Combine_fold32)
  then show ?thesis
    unfolding Checksum_def calculateChecksum_def Let_def v2 .
qed

subsection \<open>Reading the header fields as numbers\<close>

lemma unat_ihl: "unat (((x::byte) AND 0x0F) * 4) = 4 * (unat x mod 16)"
proof -
  have m: "x AND 0x0F = take_bit 4 x" by (simp add: take_bit_eq_mask mask_eq_exp_minus_1)
  have a: "unat (x AND 0x0F) = unat x mod 16"
    unfolding m by (simp add: take_bit_eq_mod unat_mod)
  have "unat x mod 16 < 16" by simp
  then have "unat (x AND 0x0F) * 4 < 256" using a by simp
  then show ?thesis using a by (simp add: unat_word_ariths)
qed

lemma unat_nibble: "unat (drop_bit 4 (x::byte)) = unat x div 16"
  by (simp add: drop_bit_eq_div unat_div)

lemma unat_doff: "unat (drop_bit 4 (x::byte) * 4) = 4 * (unat x div 16)"
proof -
  have "unat x div 16 < 16" using unat_byte_lt[of x] by simp
  then show ?thesis by (simp add: unat_word_ariths unat_nibble)
qed

lemma unat_ucast_8_16: "unat (ucast (a::byte) :: 16 word) = unat a"
  using unat_byte_lt[of a] by (simp add: unsigned_ucast_eq take_bit_eq_mod)

lemma unat_be_word: "unat (ucast (lo::byte) OR push_bit 8 (ucast (hi::byte)) :: 16 word) = 256 * unat hi + unat lo"
proof -
  let ?l = "ucast lo :: 16 word" and ?h = "push_bit 8 (ucast hi) :: 16 word"
  have "?l AND ?h = 0"
    by (rule bit_word_eqI) (auto simp: bit_simps dest: bit_imp_le_length)
  then have e: "?l OR ?h = ?l + ?h" by (simp add: disjunctive_add_eq_or)
  have h: "unat ?h = 256 * unat hi" using unat_byte_lt[of hi]
    by (simp add: push_bit_eq_mult unat_word_ariths unat_ucast_8_16)
  have "unat (?l + ?h) = unat lo + 256 * unat hi"
    using unat_byte_lt[of hi] unat_byte_lt[of lo]
    by (simp add: unat_word_ariths(1)[of ?l] h unat_ucast_8_16)
  then show ?thesis unfolding e by simp
qed

lemma unat_hi_byte: "unat (ucast (drop_bit 8 (v::16 word)) :: byte) = unat v div 256"
proof -
  have "unat (drop_bit 8 v) = unat v div 256"
    by (simp add: drop_bit_eq_div unat_div)
  moreover have "unat v div 256 < 256" using unat_u16_lt[of v] by simp
  ultimately show ?thesis by (simp add: unsigned_ucast_eq take_bit_eq_mod)
qed

lemma unat_lo_byte: "unat (ucast (v::16 word) :: byte) = unat v mod 256"
  by (simp add: unsigned_ucast_eq take_bit_eq_mod)

lemma unat_not16: "unat (NOT (c::16 word)) = 65535 - unat c"
proof -
  have "NOT c = - 1 - c" by (simp add: not_eq_complement)
  moreover have "unat (- 1 - c) = unat (- 1 :: 16 word) - unat c"
    by (rule unat_sub) simp
  moreover have "unat (- 1 :: 16 word) = 65535"
    by (simp add: unsigned_minus_1_eq_mask mask_eq_exp_minus_1)
  ultimately show ?thesis by simp
qed

lemma uint_version: "uint (drop_bit 4 (x::byte)) = int (unat x div 16)"
  by (simp add: uint_nat unat_nibble)

section \<open>Word sums of byte lists\<close>

lemma wsum_append: "even (length xs) \<Longrightarrow> wsum (xs @ ys) = wsum xs + wsum ys"
proof (induction xs rule: wsum.induct)
  case (1 a b rest)
  then show ?case by simp
qed simp_all

lemma wsum_take_drop: "even k \<Longrightarrow> wsum xs = wsum (take k xs) + wsum (drop k xs)"
proof (cases "k \<le> length xs")
  case True
  assume "even k"
  then have "even (length (take k xs))" using True by simp
  from wsum_append[OF this, of "drop k xs"] show ?thesis by simp
next
  case False
  then show ?thesis by simp
qed

lemma length_set16 [simp]: "length (set16 xs i v) = length xs"
  by (simp add: set16_def)

lemma nth_set16_other: "k \<noteq> i \<Longrightarrow> k \<noteq> i + 1 \<Longrightarrow> set16 xs i v ! k = xs ! k"
  by (simp add: set16_def)

lemma set16_set16: "set16 (set16 xs i v) i w = set16 xs i w"
  by (simp add: set16_def list_update_swap[of i "Suc i"])

lemma u16_at_update_pair:
  "i + 2 \<le> length xs \<Longrightarrow> u16_at (xs[i := a, i + 1 := b]) i = 256 * unat a + unat b"
  by (simp add: u16_at_def)

lemma hi_lo: "256 * unat (ucast (drop_bit 8 v) :: byte) + unat (ucast v :: byte) = unat (v :: 16 word)"
  unfolding unat_hi_byte[of v] unat_lo_byte[of v] by simp

lemma u16_at_set16: "i + 2 \<le> length xs \<Longrightarrow> u16_at (set16 xs i v) i = unat v"
  unfolding set16_def by (simp only: u16_at_update_pair hi_lo)

lemma take_set16: "i + 2 \<le> k \<Longrightarrow> take k (set16 xs i v) = set16 (take k xs) i v"
  by (simp add: set16_def take_update_swap)

lemma take_set16_outside: "k \<le> i \<Longrightarrow> take k (set16 xs i v) = take k xs"
  by (simp add: set16_def)

lemma drop_set16: "k \<le> i \<Longrightarrow> drop k (set16 xs i v) = set16 (drop k xs) (i - k) v"
  by (simp add: set16_def drop_update_swap Suc_diff_le)

lemma drop_set16_outside: "i + 2 \<le> k \<Longrightarrow> drop k (set16 xs i v) = drop k xs"
  by (simp add: set16_def)

lemma wsum_update_pair:
  "even i \<Longrightarrow> i + 2 \<le> length xs \<Longrightarrow>
   wsum (xs[i := a, Suc i := b]) + (256 * unat (xs ! i) + unat (xs ! Suc i)) =
   wsum xs + (256 * unat a + unat b)"
proof (induction xs arbitrary: i rule: wsum.induct)
  case (1 x y rest)
  show ?case
  proof (cases i)
    case 0
    then show ?thesis by simp
  next
    case (Suc j)
    then obtain m where i: "i = Suc (Suc m)" using "1.prems"(1) by (cases j) auto
    then have "even m" "m + 2 \<le> length rest" using "1.prems" by auto
    from "1.IH"[OF this] show ?thesis by (simp add: i)
  qed
qed simp_all

lemma wsum_set16:
  assumes "even i" and "i + 2 \<le> length xs"
  shows "wsum (set16 xs i v) + u16_at xs i = wsum xs + unat v"
  using wsum_update_pair[OF assms, of "ucast (drop_bit 8 v)" "ucast v"]
  unfolding set16_def u16_at_def by (simp only: hi_lo Suc_eq_plus1)

text \<open>
  The heart of both repairs: with the field at an even index \<open>i\<close> cleared, \<open>c\<close> the
  folded sum of what precedes (\<open>p\<close>) and of the bytes, the bytes with the complement of
  \<open>c\<close> stored in the field sum, together with \<open>p\<close>, to all ones.
\<close>

lemma complement_closes_sum:
  assumes "even i" and "i + 2 \<le> length xs"
    and "unat c = oc (p + wsum (set16 xs i 0))"
  shows "oc (p + wsum (set16 xs i (NOT c))) = 65535"
proof -
  let ?z = "set16 xs i 0"
  have l: "i + 2 \<le> length ?z" using assms(2) by simp
  have "wsum (set16 ?z i (NOT c)) + u16_at ?z i = wsum ?z + unat (NOT c)"
    by (rule wsum_set16[OF assms(1) l])
  moreover have "u16_at ?z i = 0" using u16_at_set16[OF assms(2), of 0] by simp
  ultimately have "wsum (set16 xs i (NOT c)) = wsum ?z + (65535 - oc (p + wsum ?z))"
    by (simp add: set16_set16 unat_not16 assms(3))
  then have "p + wsum (set16 xs i (NOT c)) = (p + wsum ?z) + (65535 - oc (p + wsum ?z))"
    by simp
  then show ?thesis by (simp only: oc_compl)
qed

lemma word16_all_ones: "unat (w :: 16 word) = 65535 \<Longrightarrow> w = 0xFFFF"
  by (simp add: word_unat_eq_iff)

section \<open>The library calls in closed form\<close>

lemma Put_closed: "2 \<le> len s \<Longrightarrow> Put mem s v = Some (set16 mem (off s) v)"
  by (simp add: Put_def PutUint16_def index_def store_def set16_def)

lemma Uint16_closed:
  "2 \<le> len s \<Longrightarrow> off s = i \<Longrightarrow> \<exists>w. Uint16 mem s = Some w \<and> unat w = u16_at mem i"
  by (auto simp: Uint16_def index_def u16_at_def unat_be_word)

lemma IPv4_SetChecksum_closed:
  "12 \<le> n \<Longrightarrow> IPv4_SetChecksum mem (whole n) v = Some (set16 mem 10 v)"
  by (simp add: IPv4_SetChecksum_def slice_from_def reslice_def whole_def Put_closed)

lemma IPv4_HeaderLength_closed:
  "1 \<le> n \<Longrightarrow> \<exists>h. IPv4_HeaderLength mem (whole n) = Some h \<and> unat h = ipv4_hlen mem"
  by (simp add: IPv4_HeaderLength_def index_def whole_def ipv4_hlen_def unat_ihl)

lemma IPv4_CalculateChecksum_closed:
  "1 \<le> n \<Longrightarrow> ipv4_hlen mem \<le> n \<Longrightarrow>
   IPv4_CalculateChecksum mem (whole n) = Some (Checksum (take (ipv4_hlen mem) mem) 0)"
  using IPv4_HeaderLength_closed[of n mem]
  by (auto simp: IPv4_CalculateChecksum_def slice_to_def reslice_def whole_def contents_def)

lemma IPv4_TransportProtocol_closed:
  "10 \<le> n \<Longrightarrow> IPv4_TransportProtocol mem (whole n) = Some (ucast (mem ! 9))"
  by (simp add: IPv4_TransportProtocol_def index_def whole_def)

lemma IPv4_TotalLength_closed:
  "4 \<le> n \<Longrightarrow> \<exists>w. IPv4_TotalLength mem (whole n) = Some w \<and> unat w = u16_at mem 2"
  unfolding IPv4_TotalLength_def
  by (simp add: slice_from_def reslice_def whole_def) (rule Uint16_closed, simp_all)

lemma unat_sub16:
  fixes t :: "16 word" and h :: byte
  assumes "unat h \<le> unat t"
  shows "unat (t - ucast h) = unat t - unat h"
proof -
  have "(ucast h :: 16 word) \<le> t" using assms by (simp add: word_le_nat_alt unat_ucast_8_16)
  then show ?thesis by (simp add: unat_sub unat_ucast_8_16)
qed

lemma IPv4_PayloadLength_closed:
  assumes "4 \<le> n" and "ipv4_hlen mem \<le> u16_at mem 2"
  shows "\<exists>w. IPv4_PayloadLength mem (whole n) = Some w \<and>
              unat w = u16_at mem 2 - ipv4_hlen mem"
proof -
  obtain t where t: "IPv4_TotalLength mem (whole n) = Some t" "unat t = u16_at mem 2"
    using IPv4_TotalLength_closed[OF assms(1)] by blast
  obtain h where h: "IPv4_HeaderLength mem (whole n) = Some h" "unat h = ipv4_hlen mem"
    using IPv4_HeaderLength_closed[of n mem] assms(1) by auto
  have "unat (t - ucast h) = unat t - unat h" using assms(2) t h by (intro unat_sub16) simp
  then show ?thesis by (simp add: IPv4_PayloadLength_def t h)
qed

lemma IPv4_Payload_closed:
  assumes "4 \<le> n" and "ipv4_hlen mem \<le> u16_at mem 2" and "u16_at mem 2 \<le> n"
  shows "IPv4_Payload mem (whole n) =
           Some \<lparr>off = ipv4_hlen mem, len = u16_at mem 2 - ipv4_hlen mem,
                 cap = n - ipv4_hlen mem\<rparr>"
proof -
  obtain h where h: "IPv4_HeaderLength mem (whole n) = Some h" "unat h = ipv4_hlen mem"
    using IPv4_HeaderLength_closed[of n mem] assms(1) by auto
  obtain w where w: "IPv4_PayloadLength mem (whole n) = Some w"
    "unat w = u16_at mem 2 - ipv4_hlen mem"
    using IPv4_PayloadLength_closed[OF assms(1,2)] by blast
  show ?thesis
    unfolding IPv4_Payload_def h w
    using assms h(2) w(2) by (simp add: slice_from_def slice_to_def reslice_def whole_def)
qed

lemma IPv4_addresses_closed:
  "20 \<le> n \<Longrightarrow> IPv4_SourceAddress mem (whole n) = Some (take 4 (drop 12 mem))"
  "20 \<le> n \<Longrightarrow> IPv4_DestinationAddress mem (whole n) = Some (take 4 (drop 16 mem))"
  by (simp_all add: IPv4_SourceAddress_def IPv4_DestinationAddress_def reslice_def whole_def
      contents_def)

lemma IPv6_TransportProtocol_closed:
  "7 \<le> n \<Longrightarrow> IPv6_TransportProtocol mem (whole n) = Some (ucast (mem ! 6))"
  by (simp add: IPv6_TransportProtocol_def index_def whole_def)

lemma IPv6_PayloadLength_closed:
  "6 \<le> n \<Longrightarrow> \<exists>w. IPv6_PayloadLength mem (whole n) = Some w \<and> unat w = u16_at mem 4"
  unfolding IPv6_PayloadLength_def
  by (simp add: slice_from_def reslice_def whole_def) (rule Uint16_closed, simp_all)

lemma IPv6_Payload_closed:
  assumes "40 + u16_at mem 4 \<le> n"
  shows "IPv6_Payload mem (whole n) = Some \<lparr>off = 40, len = u16_at mem 4, cap = n - 40\<rparr>"
proof -
  obtain w where w: "IPv6_PayloadLength mem (whole n) = Some w" "unat w = u16_at mem 4"
    using IPv6_PayloadLength_closed[of n mem] assms by auto
  show ?thesis
    unfolding IPv6_Payload_def w
    using assms w(2) by (simp add: slice_from_def slice_to_def reslice_def whole_def)
qed

lemma IPv6_addresses_closed:
  "40 \<le> n \<Longrightarrow> IPv6_SourceAddress mem (whole n) = Some (take 16 (drop 8 mem))"
  "40 \<le> n \<Longrightarrow> IPv6_DestinationAddress mem (whole n) = Some (take 16 (drop 24 mem))"
  by (simp_all add: IPv6_SourceAddress_def IPv6_DestinationAddress_def reslice_def whole_def
      contents_def)

lemma UDP_Length_closed:
  "6 \<le> len hdr \<Longrightarrow> len hdr \<le> cap hdr \<Longrightarrow>
   \<exists>w. UDP_Length mem hdr = Some w \<and> unat w = u16_at mem (off hdr + 4)"
  unfolding UDP_Length_def
  by (simp add: slice_from_def reslice_def) (rule Uint16_closed, simp_all)

lemma udpChecksum_closed:
  assumes "8 \<le> len hdr" and "len hdr \<le> cap hdr"
  shows "udpChecksum mem hdr s0 =
           Some (set16 mem (off hdr + 6)
             (NOT (Checksum (take 8 (drop (off hdr) (set16 mem (off hdr + 6) 0)))
                     (Checksum (take (len hdr - 8) (drop (off hdr + 8) mem)) s0))))"
  using assms
  by (simp add: udpChecksum_def UDP_Payload_def UDP_SetChecksum_def UDP_CalculateChecksum_def
      slice_from_def slice_to_def reslice_def Put_closed contents_def set16_set16 Let_def)

lemma TCP_DataOffset_closed:
  "13 \<le> len hdr \<Longrightarrow>
   \<exists>d. TCP_DataOffset mem hdr = Some d \<and> unat d = 4 * (unat (mem ! (off hdr + 12)) div 16)"
  by (simp add: TCP_DataOffset_def index_def unat_doff)

lemma tcpChecksum_closed:
  assumes "18 \<le> len hdr" and "len hdr \<le> cap hdr"
    and "d = 4 * (unat (mem ! (off hdr + 12)) div 16)" and "d \<le> len hdr"
  shows "tcpChecksum mem hdr s0 =
           Some (set16 mem (off hdr + 16)
             (NOT (Checksum (take d (drop (off hdr) (set16 mem (off hdr + 16) 0)))
                     (Checksum (take (len hdr - d) (drop (off hdr + d) mem)) s0))))"
proof -
  obtain w where w: "TCP_DataOffset mem hdr = Some w" "unat w = d"
    using TCP_DataOffset_closed[of hdr mem] assms(1,3) by auto
  have w': "TCP_DataOffset (set16 mem (off hdr + 16) 0) hdr = Some w"
    using w(1) assms(1) by (simp add: TCP_DataOffset_def index_def nth_set16_other)
  show ?thesis
    using assms(1,2,4)
    by (simp add: tcpChecksum_def TCP_Payload_def TCP_SetChecksum_def TCP_CalculateChecksum_def
        w w' slice_from_def slice_to_def reslice_def Put_closed contents_def set16_set16 Let_def)
qed

section \<open>The checksum repairs\<close>

lemma Checksum_oc:
  "length xs \<le> 65600 \<Longrightarrow> unat s0 = oc p \<Longrightarrow> unat (Checksum xs s0) = oc (p + wsum xs)"
  by (simp add: Checksum_nat oc_oc_add)

lemma wsum_pair: "wsum [ucast (drop_bit 8 l), ucast (l :: 16 word)] = unat l"
  using hi_lo[of l] by simp

lemma PseudoHeaderChecksum_nat:
  assumes "length src \<le> 16" and "length dst \<le> 16"
  shows "unat (PseudoHeaderChecksum protocol src dst l) =
           oc (wsum src + wsum dst + unat l + unat (ucast protocol :: byte))"
proof -
  have 0: "unat (0 :: 16 word) = oc 0" by (simp add: oc_def)
  have 1: "unat (Checksum src 0) = oc (0 + wsum src)"
    using assms(1) by (intro Checksum_oc 0) simp
  have 2: "unat (Checksum dst (Checksum src 0)) = oc (0 + wsum src + wsum dst)"
    using assms(2) by (intro Checksum_oc 1) simp
  have 3: "unat (Checksum [ucast (drop_bit 8 l), ucast l] (Checksum dst (Checksum src 0))) =
             oc (0 + wsum src + wsum dst + wsum [ucast (drop_bit 8 l), ucast l])"
    by (intro Checksum_oc 2) simp
  have "unat (Checksum [0, ucast protocol]
          (Checksum [ucast (drop_bit 8 l), ucast l] (Checksum dst (Checksum src 0)))) =
        oc (0 + wsum src + wsum dst + wsum [ucast (drop_bit 8 l), ucast l] +
            wsum [0, ucast protocol :: byte])"
    by (intro Checksum_oc 3) simp
  then show ?thesis
    unfolding PseudoHeaderChecksum_def Let_def wsum_pair by simp
qed

lemma take_drop_set16:
  assumes "i + 2 \<le> l"
  shows "take l (drop o' (set16 mem (o' + i) v)) = set16 (take l (drop o' mem)) i v"
  using assms by (simp add: drop_set16 take_set16)

lemma transport_roundtrip:
  assumes "even d" and "even i" and "i + 2 \<le> d" and "d \<le> l" and "o' + l \<le> length mem"
    and "l \<le> 65535" and "unat s0 = oc p"
  shows "oc (p + wsum (take l (drop o' (set16 mem (o' + i)
           (NOT (Checksum (take d (drop o' (set16 mem (o' + i) 0)))
                  (Checksum (take (l - d) (drop (o' + d) mem)) s0))))))) = 65535"
proof -
  let ?seg = "take l (drop o' mem)"
  let ?z = "set16 ?seg i 0"
  let ?c = "Checksum (take d (drop o' (set16 mem (o' + i) 0)))
              (Checksum (take (l - d) (drop (o' + d) mem)) s0)"
  have il: "i + 2 \<le> l" using assms(3,4) by simp
  have len: "length ?seg = l" using assms(5) by simp
  have h: "take d (drop o' (set16 mem (o' + i) 0)) = take d ?z"
  proof -
    have "take d ?z = take d (take l (drop o' (set16 mem (o' + i) 0)))"
      by (simp only: take_drop_set16[OF il])
    also have "\<dots> = take d (drop o' (set16 mem (o' + i) 0))"
      using assms(4) by (simp add: min_def)
    finally show ?thesis by simp
  qed
  have pl: "take (l - d) (drop (o' + d) mem) = drop d ?z"
  proof -
    have "drop d ?z = drop d ?seg" using assms(3) by (simp add: drop_set16_outside)
    also have "\<dots> = take (l - d) (drop (o' + d) mem)"
      by (simp add: drop_take add.commute)
    finally show ?thesis by simp
  qed
  have lz: "length (drop d ?z) \<le> 65600" "length (take d ?z) \<le> 65600"
    using assms(6) len by simp_all
  have "unat (Checksum (drop d ?z) s0) = oc (p + wsum (drop d ?z))"
    by (rule Checksum_oc[OF lz(1) assms(7)])
  then have "unat (Checksum (take d ?z) (Checksum (drop d ?z) s0)) =
               oc (p + wsum (drop d ?z) + wsum (take d ?z))"
    by (rule Checksum_oc[OF lz(2)])
  then have c: "unat ?c = oc (p + wsum ?z)"
    unfolding h pl using wsum_take_drop[OF assms(1), of ?z] by (simp add: add.commute add.left_commute)
  have "oc (p + wsum (set16 ?seg i (NOT ?c))) = 65535"
    using il len by (intro complement_closes_sum assms(2) c) simp
  then show ?thesis by (simp only: take_drop_set16[OF il])
qed

lemma header_roundtrip:
  assumes "12 \<le> h" and "h \<le> length b" and "h \<le> 60"
  shows "Checksum (take h (set16 b 10 (NOT (Checksum (take h (set16 b 10 0)) 0)))) 0 = 0xFFFF"
proof -
  let ?c = "Checksum (take h (set16 b 10 0)) 0"
  have "unat ?c = oc (0 + wsum (take h (set16 b 10 0)))"
    using assms by (intro Checksum_oc) (simp_all add: oc_def)
  then have c: "unat ?c = oc (0 + wsum (set16 (take h b) 10 0))"
    using assms(1) by (simp add: take_set16)
  have "oc (0 + wsum (set16 (take h b) 10 (NOT ?c))) = 65535"
    using assms(1,2) by (intro complement_closes_sum c) simp_all
  moreover have "unat (Checksum (take h (set16 b 10 (NOT ?c))) 0) =
                   oc (0 + wsum (take h (set16 b 10 (NOT ?c))))"
    using assms by (intro Checksum_oc) (simp_all add: oc_def)
  ultimately have "unat (Checksum (take h (set16 b 10 (NOT ?c))) 0) = 65535"
    using assms(1) by (simp add: take_set16)
  then show ?thesis by (rule word16_all_ones)
qed

section \<open>The outbound drain\<close>

lemma go_append_shown:
  assumes "within scratch s" and "go_append scratch s xs = (scratch', s')"
  shows "shown scratch' s' = shown scratch s @ xs \<and> within scratch' s' \<and>
         length scratch' = length scratch"
  using assms by (cases s) (auto split: if_splits)

lemma go_append_prefix:
  assumes "go_append scratch s xs = (scratch', s')" and "\<forall>l. s = InPlace l \<longrightarrow> k \<le> l"
  shows "take k scratch' = take k scratch"
  using assms by (cases s) (auto split: if_splits)

lemma go_append_grows:
  assumes "go_append scratch (InPlace l) xs = (scratch', s')"
  shows "\<forall>l'. s' = InPlace l' \<longrightarrow> l \<le> l'"
  using assms by (auto split: if_splits)

lemma append3_shown:
  assumes "l \<le> length scratch"
    and "go_append scratch (InPlace l) xs = (s1, b1)"
    and "go_append s1 b1 ys = (s2, b2)"
    and "go_append s2 b2 zs = (s3, b3)"
  shows "shown s3 b3 = take l scratch @ xs @ ys @ zs" and "take l s3 = take l scratch"
proof -
  have w0: "within scratch (InPlace l)" using assms(1) by simp
  note a1 = go_append_shown[OF w0 assms(2)]
  note a2 = go_append_shown[OF a1[THEN conjunct2, THEN conjunct1] assms(3)]
  note a3 = go_append_shown[OF a2[THEN conjunct2, THEN conjunct1] assms(4)]
  show "shown s3 b3 = take l scratch @ xs @ ys @ zs"
    using a1 a2 a3 by simp
  have g1: "\<forall>l'. b1 = InPlace l' \<longrightarrow> l \<le> l'" by (rule go_append_grows[OF assms(2)])
  have g2: "\<forall>l'. b2 = InPlace l' \<longrightarrow> l \<le> l'"
    using assms(3) g1 by (cases b1) (auto split: if_splits)
  have "take l s1 = take l scratch" by (rule go_append_prefix[OF assms(2)]) simp
  moreover have "take l s2 = take l s1" using go_append_prefix[OF assms(3)] g1 by blast
  moreover have "take l s3 = take l s2" using go_append_prefix[OF assms(4)] g2 by blast
  ultimately show "take l s3 = take l scratch" by simp
qed

lemma WriteNotify_unix_empty:
  "outbound (u_Endpoint e) = [] \<Longrightarrow> WriteNotify_unix e = Some e"
  by (simp add: WriteNotify_unix_def Read_def)

lemma WriteNotify_unix_packet:
  assumes "outbound (u_Endpoint e) = pkt # rest" and "4 \<le> length (u_buf e)"
  shows "\<exists>e'. WriteNotify_unix e = Some e' \<and>
           u_written e' = u_written e @
             [(take 4 (u_buf e) @ NetworkHeader pkt @ TransportHeader pkt @ concat (Data pkt), 4)] \<and>
           take 4 (u_buf e') = take 4 (u_buf e) \<and>
           outbound (u_Endpoint e') = rest"
proof -
  obtain s1 b1 where 1: "go_append (u_buf e) (InPlace 4) (NetworkHeader pkt) = (s1, b1)"
    by (cases "go_append (u_buf e) (InPlace 4) (NetworkHeader pkt)")
  obtain s2 b2 where 2: "go_append s1 b1 (TransportHeader pkt) = (s2, b2)"
    by (cases "go_append s1 b1 (TransportHeader pkt)")
  obtain s3 b3 where 3: "go_append s2 b2 (concat (Data pkt)) = (s3, b3)"
    by (cases "go_append s2 b2 (concat (Data pkt))")
  note r = append3_shown[OF assms(2) 1 2 3]
  show ?thesis
    using assms(1) 1 2 3 r by (simp add: WriteNotify_unix_def Read_def)
qed

lemma WriteNotify_windows_packet:
  assumes "outbound (w_Endpoint e) = pkt # rest"
  shows "\<exists>e'. WriteNotify_windows e = Some e' \<and>
           w_written e' = w_written e @
             [NetworkHeader pkt @ TransportHeader pkt @ concat (Data pkt)] \<and>
           outbound (w_Endpoint e') = rest"
proof -
  obtain s1 b1 where 1: "go_append (w_buff e) (InPlace 0) (NetworkHeader pkt) = (s1, b1)"
    by (cases "go_append (w_buff e) (InPlace 0) (NetworkHeader pkt)")
  obtain s2 b2 where 2: "go_append s1 b1 (TransportHeader pkt) = (s2, b2)"
    by (cases "go_append s1 b1 (TransportHeader pkt)")
  obtain s3 b3 where 3: "go_append s2 b2 (concat (Data pkt)) = (s3, b3)"
    by (cases "go_append s2 b2 (concat (Data pkt))")
  have "0 \<le> length (w_buff e)" by simp
  note r = append3_shown[OF this 1 2 3]
  show ?thesis
    using assms(1) 1 2 3 r by (simp add: WriteNotify_windows_def Read_def)
qed

text \<open>
  C6, on the windows build.  The linux and darwin handler returns at once when the queue
  is empty (\<open>WriteNotify_unix_empty\<close>).  The windows handler has no such check: called
  with an empty outbound queue it takes the header of the nil packet and panics.
\<close>

theorem WriteNotify_windows_empty_queue_panics:
  "WriteNotify_windows
     \<lparr>w_Endpoint = \<lparr>inbound = [], outbound = []\<rparr>,
      w_Device = \<lparr>isWriter = True, isReader = True, isWriterTo = False,
                  isReaderOffset = False, isWriterOffset = False\<rparr>,
      w_mtu = 1500, w_buff = replicate 1500 0, w_written = []\<rparr> = None"
  by (simp add: WriteNotify_windows_def Read_def)

text \<open>
  C8.  For a dequeued packet, the buffer written to the device is the frame prefix (the
  first 4 bytes of the scratch buffer as they are, with offset 4, on linux and darwin;
  none on windows), then the network header, the transport header and the flattened
  payload of that packet, in this order; the packet leaves the queue and the prefix
  bytes of the scratch buffer stay as they were.
\<close>

theorem WriteNotify_writes_prefix_headers_payload:
  assumes "outbound (u_Endpoint e) = pkt # rest" and "4 \<le> length (u_buf e)"
    and "outbound (w_Endpoint w) = pkt # rest"
  shows "\<exists>e' w'.
           WriteNotify_unix e = Some e' \<and>
           u_written e' = u_written e @
             [(take 4 (u_buf e) @ NetworkHeader pkt @ TransportHeader pkt @ concat (Data pkt), 4)] \<and>
           take 4 (u_buf e') = take 4 (u_buf e) \<and>
           outbound (u_Endpoint e') = rest \<and>
           WriteNotify_windows w = Some w' \<and>
           w_written w' = w_written w @
             [NetworkHeader pkt @ TransportHeader pkt @ concat (Data pkt)] \<and>
           outbound (w_Endpoint w') = rest"
  using WriteNotify_unix_packet[OF assms(1,2)] WriteNotify_windows_packet[OF assms(3)]
  by blast

theorem WriteNotify_writes_prefix_headers_payload_witness:
  "\<exists>e' w'.
     WriteNotify_unix
       \<lparr>u_Endpoint = \<lparr>inbound = [],
          outbound = [\<lparr>NetworkHeader = [0x45, 1], TransportHeader = [2, 3], Data = [[4], [5, 6]]\<rparr>]\<rparr>,
        u_mtu = 4,
        u_dev = \<lparr>isWriter = True, isReader = False, isWriterTo = False,
                 isReaderOffset = True, isWriterOffset = True\<rparr>,
        u_buf = [0, 0, 0, 2, 9, 9, 9, 9], u_written = []\<rparr> = Some e' \<and>
     u_written e' = [([0, 0, 0, 2, 0x45, 1, 2, 3, 4, 5, 6], 4)] \<and>
     WriteNotify_windows
       \<lparr>w_Endpoint = \<lparr>inbound = [],
          outbound = [\<lparr>NetworkHeader = [0x45, 1], TransportHeader = [2, 3], Data = [[4], [5, 6]]\<rparr>]\<rparr>,
        w_Device = \<lparr>isWriter = True, isReader = True, isWriterTo = False,
                    isReaderOffset = False, isWriterOffset = False\<rparr>,
        w_mtu = 4, w_buff = [9, 9, 9, 9], w_written = []\<rparr> = Some w' \<and>
     w_written w' = [[0x45, 1, 2, 3, 4, 5, 6]]"
proof -
  let ?p = "\<lparr>NetworkHeader = [0x45, 1], TransportHeader = [2, 3], Data = [[4], [5 :: byte, 6]]\<rparr>"
  let ?e = "\<lparr>u_Endpoint = \<lparr>inbound = [], outbound = [?p]\<rparr>,
        u_mtu = 4,
        u_dev = \<lparr>isWriter = True, isReader = False, isWriterTo = False,
                 isReaderOffset = True, isWriterOffset = True\<rparr>,
        u_buf = [0, 0, 0, 2, 9, 9, 9, 9], u_written = []\<rparr>"
  let ?w = "\<lparr>w_Endpoint = \<lparr>inbound = [], outbound = [?p]\<rparr>,
        w_Device = \<lparr>isWriter = True, isReader = True, isWriterTo = False,
                    isReaderOffset = False, isWriterOffset = False\<rparr>,
        w_mtu = 4, w_buff = [9, 9, 9, 9], w_written = []\<rparr>"
  have 1: "outbound (u_Endpoint ?e) = ?p # []" by simp
  have 2: "4 \<le> length (u_buf ?e)" by simp
  have 3: "outbound (w_Endpoint ?w) = ?p # []" by simp
  from WriteNotify_writes_prefix_headers_payload[OF 1 2 3]
  obtain e' w' where "WriteNotify_unix ?e = Some e'"
    and "u_written e' = u_written ?e @
          [(take 4 (u_buf ?e) @ NetworkHeader ?p @ TransportHeader ?p @ concat (Data ?p), 4)]"
    and "WriteNotify_windows ?w = Some w'"
    and "w_written w' = w_written ?w @
          [NetworkHeader ?p @ TransportHeader ?p @ concat (Data ?p)]"
    by blast
  then have "WriteNotify_unix ?e = Some e' \<and>
     u_written e' = [([0, 0, 0, 2, 0x45, 1, 2, 3, 4, 5, 6], 4)] \<and>
     WriteNotify_windows ?w = Some w' \<and>
     w_written w' = [[0x45, 1, 2, 3, 4, 5, 6]]"
    by simp
  then show ?thesis by blast
qed

section \<open>Construction and attachment\<close>

text \<open>
  C9 as stated: a device with none of the three capability variants makes construction or
  attachment panic, and a device that matches a variant is constructed and attached.  The
  second half fails: each build knows its own variants only.  A device that offers offset
  read and write and nothing else is refused by the windows build.
\<close>

theorem construct_attach_any_variant_counterexample:
  "\<not> (\<forall>bld dev mtu.
        (\<not> offset_variant dev \<and> \<not> direct_variant dev \<and> \<not> push_variant dev \<longrightarrow>
           (\<exists>p. construct_attach bld dev mtu = Inl p)) \<and>
        (offset_variant dev \<or> direct_variant dev \<or> push_variant dev \<longrightarrow>
           (\<exists>g. construct_attach bld dev mtu = Inr g)))"
proof
  let ?dev = "\<lparr>isWriter = True, isReader = False, isWriterTo = False,
               isReaderOffset = True, isWriterOffset = True\<rparr>"
  assume "\<forall>bld dev mtu.
        (\<not> offset_variant dev \<and> \<not> direct_variant dev \<and> \<not> push_variant dev \<longrightarrow>
           (\<exists>p. construct_attach bld dev mtu = Inl p)) \<and>
        (offset_variant dev \<or> direct_variant dev \<or> push_variant dev \<longrightarrow>
           (\<exists>g. construct_attach bld dev mtu = Inr g))"
  then have "offset_variant ?dev \<or> direct_variant ?dev \<or> push_variant ?dev \<longrightarrow>
           (\<exists>g. construct_attach Windows ?dev 1500 = Inr g)"
    by blast
  then show False
    by (simp add: offset_variant_def construct_attach_def NewEndpoint_windows_def
        Attach_windows_def)
qed

text \<open>
  C9 as amended.  The linux and darwin build constructs and attaches exactly the devices
  of the offset variant and starts the read loop for them; the windows build starts the
  read loop for a device of the direct variant and the push producer for one of the push
  variant; every other device makes construction or attachment panic, and nothing is
  started.  So a device with none of the three variants fails on both builds.
\<close>

theorem construct_attach_by_build:
  "construct_attach LinuxDarwin dev mtu =
     (if offset_variant dev then Inr (ReadLoop (4 + mtu)) else Inl InterfaceConversion) \<and>
   construct_attach Windows dev mtu =
     (if direct_variant dev then Inr (ReadLoop (mtu + 4))
      else if push_variant dev then Inr WriteToLoop
      else Inl NotValidDevice)"
  by (auto simp: construct_attach_def NewEndpoint_unix_def Attach_unix_def
      NewEndpoint_windows_def Attach_windows_def offset_variant_def direct_variant_def
      push_variant_def)

section \<open>The read loops\<close>

lemma length_fill: "length (fill bsize data) = bsize"
  by (simp add: fill_def)

lemma IPVersion_nibble:
  assumes "off s + len s \<le> length mem"
  shows "IPVersion mem s = (case version_nibble (contents mem s) of None \<Rightarrow> - 1 | Some v \<Rightarrow> int v)"
proof (cases "len s = 0")
  case True
  then show ?thesis by (simp add: IPVersion_def contents_def version_nibble_def)
next
  case False
  then have "off s < length mem" using assms by simp
  then have "drop (off s) mem = mem ! off s # drop (Suc (off s)) mem"
    by (simp add: Cons_nth_drop_Suc)
  moreover obtain l where "len s = Suc l" using False by (cases "len s") auto
  ultimately show ?thesis
    by (simp add: IPVersion_def contents_def version_nibble_def uint_version)
qed

lemma forward_tagged:
  assumes "off s + len s \<le> length mem"
  shows "forward e mem s = e\<lparr>inbound := inbound e @ tagged (contents mem s)\<rparr>"
  by (cases "version_nibble (contents mem s)")
     (auto simp: forward_def IPVersion_nibble[OF assms] tagged_def InjectInbound_def
       IPv4Version_def IPv6Version_def)

lemma forwarded_0: "forwarded w bsize r j 0 = []"
  by (simp add: forwarded_def)

lemma upt_shift: "[j..<j + Suc k] = j # [Suc j..<Suc j + k]"
proof -
  have "j < j + Suc k" by simp
  from upt_conv_Cons[OF this] show ?thesis by (simp del: upt_Suc)
qed

lemma forwarded_Suc:
  "forwarded w bsize r j (Suc k) = tagged (payload w bsize (r j)) @ forwarded w bsize r (Suc j) k"
  unfolding forwarded_def upt_shift by simp

lemma length_tagged: "length (tagged pkt) = (if known_version pkt then 1 else 0)"
  by (simp add: tagged_def known_version_def)

lemma length_forwarded:
  "length (forwarded w bsize r j k) =
     length (filter (\<lambda>i. known_version (payload w bsize (r i))) [j..<j + k])"
proof (induction k arbitrary: j)
  case 0
  then show ?case by (simp add: forwarded_0)
next
  case (Suc k)
  show ?case
    unfolding forwarded_Suc upt_shift by (simp add: Suc.IH length_tagged)
qed

lemma pump_unix_run:
  assumes "\<forall>i<k. read_ok 4 bsize (r (issued st + i))" and "r (issued st + k) = ReadError"
  shows "pump_unix r bsize st =
           Some (Stopped \<lparr>issued = issued st + k + 1,
                          ep = (ep st)\<lparr>inbound := inbound (ep st) @ forwarded 4 bsize r (issued st) k\<rparr>\<rparr>)"
  using assms
proof (induction k arbitrary: st)
  case 0
  then show ?case
    by (subst pump_unix.simps) (simp add: forwarded_0)
next
  case (Suc k)
  from Suc.prems(1) have "read_ok 4 bsize (r (issued st))" by (metis add.right_neutral zero_less_Suc)
  then obtain data n where rd: "r (issued st) = ReadOk data n" and n: "0 \<le> n" "4 + nat n \<le> bsize"
    by (auto simp: read_ok_def split: read_result.splits)
  let ?s = "\<lparr>off = 4, len = nat n, cap = bsize - 4\<rparr>"
  let ?st = "st\<lparr>issued := issued st + 1, ep := forward (ep st) (fill bsize data) ?s\<rparr>"
  have sl: "reslice (whole bsize) 4 (4 + nat n) = Some ?s"
    using n by (simp add: reslice_def whole_def)
  have step: "pump_unix r bsize st = pump_unix r bsize ?st"
    using n by (subst pump_unix.simps) (simp add: rd sl Let_def)
  have fw: "forward (ep st) (fill bsize data) ?s =
              (ep st)\<lparr>inbound := inbound (ep st) @ tagged (payload 4 bsize (r (issued st)))\<rparr>"
    using n by (subst forward_tagged) (simp_all add: length_fill payload_def rd contents_def)
  have p1: "\<forall>i<k. read_ok 4 bsize (r (issued ?st + i))"
    using Suc.prems(1) by (auto dest: spec[of _ "Suc _"])
  have p2: "r (issued ?st + k) = ReadError" using Suc.prems(2) by simp
  show ?case
    unfolding step Suc.IH[OF p1 p2] by (simp add: fw forwarded_Suc)
qed

lemma pump_windows_run:
  assumes "\<forall>i<k. read_ok 0 bsize (r (issued st + i))" and "r (issued st + k) = ReadError"
  shows "pump_windows r bsize st =
           Some (Stopped \<lparr>issued = issued st + k + 1,
                          ep = (ep st)\<lparr>inbound := inbound (ep st) @ forwarded 0 bsize r (issued st) k\<rparr>\<rparr>)"
  using assms
proof (induction k arbitrary: st)
  case 0
  then show ?case
    by (subst pump_windows.simps) (simp add: forwarded_0)
next
  case (Suc k)
  from Suc.prems(1) have "read_ok 0 bsize (r (issued st))" by (metis add.right_neutral zero_less_Suc)
  then obtain data n where rd: "r (issued st) = ReadOk data n" and n: "0 \<le> n" "nat n \<le> bsize"
    by (auto simp: read_ok_def split: read_result.splits)
  let ?s = "\<lparr>off = 0, len = nat n, cap = bsize\<rparr>"
  let ?st = "st\<lparr>issued := issued st + 1, ep := forward (ep st) (fill bsize data) ?s\<rparr>"
  have sl: "slice_to (whole bsize) (nat n) = Some ?s"
    using n by (simp add: slice_to_def reslice_def whole_def)
  have step: "pump_windows r bsize st = pump_windows r bsize ?st"
    using n by (subst pump_windows.simps) (simp add: rd sl Let_def)
  have fw: "forward (ep st) (fill bsize data) ?s =
              (ep st)\<lparr>inbound := inbound (ep st) @ tagged (payload 0 bsize (r (issued st)))\<rparr>"
    using n by (subst forward_tagged) (simp_all add: length_fill payload_def rd contents_def)
  have p1: "\<forall>i<k. read_ok 0 bsize (r (issued ?st + i))"
    using Suc.prems(1) by (auto dest: spec[of _ "Suc _"])
  have p2: "r (issued ?st + k) = ReadError" using Suc.prems(2) by simp
  show ?case
    unfolding step Suc.IH[OF p1 p2] by (simp add: fw forwarded_Suc)
qed

lemma forwarded_unknown:
  assumes "\<forall>i<k. \<not> known_version (payload w bsize (r (j + i)))"
  shows "forwarded w bsize r j k = []"
  using assms
proof (induction k arbitrary: j)
  case 0
  then show ?case by (simp add: forwarded_0)
next
  case (Suc k)
  have "\<not> known_version (payload w bsize (r j))"
    using Suc.prems by (metis add.right_neutral zero_less_Suc)
  moreover have "\<forall>i<k. \<not> known_version (payload w bsize (r (Suc j + i)))"
    using Suc.prems by (auto dest: spec[of _ "Suc _"])
  ultimately show ?case
    by (simp add: forwarded_Suc Suc.IH tagged_def known_version_def)
qed

lemma contents_whole: "contents b (whole (length b)) = b"
  by (simp add: contents_def whole_def)

lemma Write_unknown_version:
  assumes "\<not> known_version b"
  shows "Write e b = Some ((length b, None), e)"
proof -
  have "IPVersion b (whole (length b)) =
          (case version_nibble b of None \<Rightarrow> - 1 | Some v \<Rightarrow> int v)"
    using IPVersion_nibble[of "whole (length b)" b] by (simp add: contents_whole) (simp add: whole_def)
  then show ?thesis
    using assms
    by (cases "version_nibble b")
       (auto simp: Write_def Let_def known_version_def IPv4Version_def IPv6Version_def whole_def)
qed

text \<open>
  C3.  A byte sequence whose first nibble is neither 4 nor 6 (an empty one has none) is
  dropped without an error: \<^verbatim>\<open>Write\<close> returns \<open>(len(b), nil)\<close> and leaves the
  channel as it was, and a read loop whose successful reads all carry such a payload has
  handed nothing to the dispatcher when it stops.
\<close>

theorem unknown_version_forwards_nothing:
  assumes "\<not> known_version b"
    and "\<forall>i<k. read_ok 4 bsize (r i) \<and> \<not> known_version (payload 4 bsize (r i))"
    and "r k = ReadError"
    and "\<forall>i<k. read_ok 0 bsize (r' i) \<and> \<not> known_version (payload 0 bsize (r' i))"
    and "r' k = ReadError"
  shows "Write e b = Some ((length b, None), e) \<and>
         pump_unix r bsize \<lparr>issued = 0, ep = e\<rparr> = Some (Stopped \<lparr>issued = k + 1, ep = e\<rparr>) \<and>
         pump_windows r' bsize \<lparr>issued = 0, ep = e\<rparr> = Some (Stopped \<lparr>issued = k + 1, ep = e\<rparr>)"
proof -
  have u: "forwarded 4 bsize r 0 k = []" using assms(2) by (intro forwarded_unknown) simp
  have w: "forwarded 0 bsize r' 0 k = []" using assms(4) by (intro forwarded_unknown) simp
  have "pump_unix r bsize \<lparr>issued = 0, ep = e\<rparr> = Some (Stopped \<lparr>issued = k + 1, ep = e\<rparr>)"
    using pump_unix_run[of k bsize r "\<lparr>issued = 0, ep = e\<rparr>"] assms(2,3) by (simp add: u)
  moreover have "pump_windows r' bsize \<lparr>issued = 0, ep = e\<rparr> = Some (Stopped \<lparr>issued = k + 1, ep = e\<rparr>)"
    using pump_windows_run[of k bsize r' "\<lparr>issued = 0, ep = e\<rparr>"] assms(4,5) by (simp add: w)
  ultimately show ?thesis using Write_unknown_version[OF assms(1)] by simp
qed

lemma sample_payloads:
  "payload 4 24 (ReadOk (0 # 0 # 0 # 2 # sample_unknown) 3) = sample_unknown"
  "payload 0 24 (ReadOk sample_unknown 3) = sample_unknown"
  "payload 4 24 (ReadOk (0 # 0 # 0 # 2 # sample_ipv4) 20) = sample_ipv4"
  "payload 0 24 (ReadOk sample_ipv4 20) = sample_ipv4"
  by (simp_all add: payload_def fill_def sample_unknown_def sample_ipv4_def)

lemma sample_versions: "\<not> known_version sample_unknown" "known_version sample_ipv4"
  by (simp_all add: known_version_def version_nibble_def sample_unknown_def sample_ipv4_def)

theorem unknown_version_forwards_nothing_witness:
  "\<not> known_version sample_unknown \<and>
   read_ok 4 24 (unknown_reads_offset 0) \<and>
   \<not> known_version (payload 4 24 (unknown_reads_offset 0)) \<and>
   unknown_reads_offset 1 = ReadError \<and>
   read_ok 0 24 (unknown_reads_direct 0) \<and>
   \<not> known_version (payload 0 24 (unknown_reads_direct 0)) \<and>
   unknown_reads_direct 1 = ReadError \<and>
   Write no_traffic sample_unknown = Some ((3, None), no_traffic) \<and>
   pump_unix unknown_reads_offset 24 \<lparr>issued = 0, ep = no_traffic\<rparr> =
     Some (Stopped \<lparr>issued = 2, ep = no_traffic\<rparr>) \<and>
   pump_windows unknown_reads_direct 24 \<lparr>issued = 0, ep = no_traffic\<rparr> =
     Some (Stopped \<lparr>issued = 2, ep = no_traffic\<rparr>)"
proof -
  have 1: "\<not> known_version sample_unknown" by (rule sample_versions)
  have o: "read_ok 4 24 (unknown_reads_offset 0)" "unknown_reads_offset 1 = ReadError"
    "\<not> known_version (payload 4 24 (unknown_reads_offset 0))"
    by (simp_all add: unknown_reads_offset_def read_ok_def sample_payloads sample_versions)
  have d: "read_ok 0 24 (unknown_reads_direct 0)" "unknown_reads_direct 1 = ReadError"
    "\<not> known_version (payload 0 24 (unknown_reads_direct 0))"
    by (simp_all add: unknown_reads_direct_def read_ok_def sample_payloads sample_versions)
  have 2: "\<forall>i<1. read_ok 4 24 (unknown_reads_offset i) \<and>
             \<not> known_version (payload 4 24 (unknown_reads_offset i))"
    using o by simp
  have 4: "\<forall>i<1. read_ok 0 24 (unknown_reads_direct i) \<and>
             \<not> known_version (payload 0 24 (unknown_reads_direct i))"
    using d by simp
  have l: "length sample_unknown = 3" by (simp add: sample_unknown_def)
  show ?thesis
    using unknown_version_forwards_nothing[OF 1 2 o(2) 4 d(2), of no_traffic] o d 1
    by (simp add: l)
qed

text \<open>
  C5.  When the first \<open>k\<close> reads succeed and the next one fails, the loop stops there:
  it has issued \<open>k + 1\<close> reads, the failed one last, and has handed to the dispatcher the
  payloads of the \<open>k\<close> reads in read order, each tagged with its protocol, less those
  whose version nibble is neither 4 nor 6.
\<close>

theorem pump_stops_at_first_read_error:
  assumes "\<forall>i<k. read_ok 4 bsize (r i)" and "r k = ReadError"
    and "\<forall>i<k. read_ok 0 bsize (r' i)" and "r' k = ReadError"
  shows "pump_unix r bsize \<lparr>issued = 0, ep = e\<rparr> =
           Some (Stopped \<lparr>issued = k + 1,
                          ep = e\<lparr>inbound := inbound e @ forwarded 4 bsize r 0 k\<rparr>\<rparr>) \<and>
         length (forwarded 4 bsize r 0 k) =
           k - length (filter (\<lambda>i. \<not> known_version (payload 4 bsize (r i))) [0..<k]) \<and>
         pump_windows r' bsize \<lparr>issued = 0, ep = e\<rparr> =
           Some (Stopped \<lparr>issued = k + 1,
                          ep = e\<lparr>inbound := inbound e @ forwarded 0 bsize r' 0 k\<rparr>\<rparr>) \<and>
         length (forwarded 0 bsize r' 0 k) =
           k - length (filter (\<lambda>i. \<not> known_version (payload 0 bsize (r' i))) [0..<k])"
proof -
  have c: "length (forwarded w bsize q 0 k) =
             k - length (filter (\<lambda>i. \<not> known_version (payload w bsize (q i))) [0..<k])"
    for w q
    using sum_length_filter_compl[of "\<lambda>i. known_version (payload w bsize (q i))" "[0..<k]"]
    by (simp add: length_forwarded)
  have "pump_unix r bsize \<lparr>issued = 0, ep = e\<rparr> =
           Some (Stopped \<lparr>issued = k + 1,
                          ep = e\<lparr>inbound := inbound e @ forwarded 4 bsize r 0 k\<rparr>\<rparr>)"
    using pump_unix_run[of k bsize r "\<lparr>issued = 0, ep = e\<rparr>"] assms(1,2) by simp
  moreover have "pump_windows r' bsize \<lparr>issued = 0, ep = e\<rparr> =
           Some (Stopped \<lparr>issued = k + 1,
                          ep = e\<lparr>inbound := inbound e @ forwarded 0 bsize r' 0 k\<rparr>\<rparr>)"
    using pump_windows_run[of k bsize r' "\<lparr>issued = 0, ep = e\<rparr>"] assms(3,4) by simp
  ultimately show ?thesis using c by simp
qed

theorem pump_stops_at_first_read_error_witness:
  "read_ok 4 24 (sample_reads_offset 0) \<and> read_ok 4 24 (sample_reads_offset 1) \<and>
   sample_reads_offset 2 = ReadError \<and>
   read_ok 0 24 (sample_reads_direct 0) \<and> read_ok 0 24 (sample_reads_direct 1) \<and>
   sample_reads_direct 2 = ReadError \<and>
   pump_unix sample_reads_offset 24 \<lparr>issued = 0, ep = no_traffic\<rparr> =
     Some (Stopped \<lparr>issued = 3,
       ep = \<lparr>inbound = [(IPv4ProtocolNumber, sample_ipv4)], outbound = []\<rparr>\<rparr>) \<and>
   pump_windows sample_reads_direct 24 \<lparr>issued = 0, ep = no_traffic\<rparr> =
     Some (Stopped \<lparr>issued = 3,
       ep = \<lparr>inbound = [(IPv4ProtocolNumber, sample_ipv4)], outbound = []\<rparr>\<rparr>)"
proof -
  have o: "read_ok 4 24 (sample_reads_offset 0)" "read_ok 4 24 (sample_reads_offset 1)"
    "sample_reads_offset 2 = ReadError"
    by (simp_all add: sample_reads_offset_def read_ok_def)
  have d: "read_ok 0 24 (sample_reads_direct 0)" "read_ok 0 24 (sample_reads_direct 1)"
    "sample_reads_direct 2 = ReadError"
    by (simp_all add: sample_reads_direct_def read_ok_def)
  have 1: "\<forall>i<2. read_ok 4 24 (sample_reads_offset i)"
    using o by (simp add: less_Suc_eq numeral_2_eq_2)
  have 3: "\<forall>i<2. read_ok 0 24 (sample_reads_direct i)"
    using d by (simp add: less_Suc_eq numeral_2_eq_2)
  have t: "tagged sample_ipv4 = [(IPv4ProtocolNumber, sample_ipv4)]" "tagged sample_unknown = []"
    by (simp_all add: tagged_def version_nibble_def sample_ipv4_def sample_unknown_def)
  have fo: "forwarded 4 24 sample_reads_offset 0 2 = [(IPv4ProtocolNumber, sample_ipv4)]"
    by (simp add: numeral_2_eq_2 forwarded_Suc forwarded_0 sample_reads_offset_def
        sample_payloads t)
  have fd: "forwarded 0 24 sample_reads_direct 0 2 = [(IPv4ProtocolNumber, sample_ipv4)]"
    by (simp add: numeral_2_eq_2 forwarded_Suc forwarded_0 sample_reads_direct_def
        sample_payloads t)
  show ?thesis
    using pump_stops_at_first_read_error[OF 1 o(3) 3 d(3), of no_traffic] o d
    by (simp add: fo fd no_traffic_def)
qed

text \<open>
  C4.  With the frame prefix of width 4, a read that leaves 4 prefix bytes and a 20 byte
  payload in the buffer and returns 20 makes the loop classify and forward exactly those
  20 bytes: the prefix reaches neither the classification nor the dispatcher.
\<close>

theorem pump_unix_strips_prefix:
  assumes "length pre = 4" and "length pay = 20" and "24 \<le> bsize"
    and "r 0 = ReadOk (pre @ pay @ rest) 20" and "r 1 = ReadError"
  shows "pump_unix r bsize \<lparr>issued = 0, ep = e\<rparr> =
           Some (Stopped \<lparr>issued = 2, ep = e\<lparr>inbound := inbound e @ tagged pay\<rparr>\<rparr>)"
proof -
  have p: "payload 4 bsize (r 0) = pay"
    using assms(1-3) by (simp add: payload_def assms(4) fill_def)
  have "\<forall>i<1. read_ok 4 bsize (r (issued \<lparr>issued = 0, ep = e\<rparr> + i))"
    using assms(3) by (simp add: read_ok_def assms(4))
  moreover have "r (issued \<lparr>issued = 0, ep = e\<rparr> + 1) = ReadError" using assms(5) by simp
  ultimately have "pump_unix r bsize \<lparr>issued = 0, ep = e\<rparr> =
      Some (Stopped \<lparr>issued = issued \<lparr>issued = 0, ep = e\<rparr> + 1 + 1,
              ep = (ep \<lparr>issued = 0, ep = e\<rparr>)\<lparr>inbound := inbound (ep \<lparr>issued = 0, ep = e\<rparr>) @
                     forwarded 4 bsize r (issued \<lparr>issued = 0, ep = e\<rparr>) 1\<rparr>\<rparr>)"
    by (rule pump_unix_run)
  moreover have "forwarded 4 bsize r 0 1 = tagged pay"
    using forwarded_Suc[of 4 bsize r 0 0] by (simp add: forwarded_0 p)
  ultimately show ?thesis by simp
qed

theorem pump_unix_strips_prefix_witness:
  "length [0, 0, 0, 2 :: byte] = 4 \<and>
   length [0x45, 0, 0, 20, 0, 0, 0, 0, 64, 1, 0, 0, 10, 0, 0, 1, 10, 0, 0, 2 :: byte] = 20 \<and>
   (24 :: nat) \<le> 1504 \<and>
   (\<lambda>i. if i = 0 then ReadOk ([0, 0, 0, 2] @
       [0x45, 0, 0, 20, 0, 0, 0, 0, 64, 1, 0, 0, 10, 0, 0, 1, 10, 0, 0, 2] @ []) 20
        else ReadError) (0 :: nat) =
     ReadOk ([0, 0, 0, 2] @
       [0x45, 0, 0, 20, 0, 0, 0, 0, 64, 1, 0, 0, 10, 0, 0, 1, 10, 0, 0, 2] @ []) 20 \<and>
   pump_unix
     (\<lambda>i. if i = 0 then ReadOk ([0, 0, 0, 2] @
       [0x45, 0, 0, 20, 0, 0, 0, 0, 64, 1, 0, 0, 10, 0, 0, 1, 10, 0, 0, 2] @ []) 20
        else ReadError)
     1504 \<lparr>issued = 0, ep = \<lparr>inbound = [], outbound = []\<rparr>\<rparr> =
   Some (Stopped \<lparr>issued = 2, ep = \<lparr>inbound =
     [(IPv4ProtocolNumber,
       [0x45, 0, 0, 20, 0, 0, 0, 0, 64, 1, 0, 0, 10, 0, 0, 1, 10, 0, 0, 2])],
     outbound = []\<rparr>\<rparr>)"
proof -
  let ?pre = "[0, 0, 0, 2 :: byte]"
  let ?pay = "[0x45, 0, 0, 20, 0, 0, 0, 0, 64, 1, 0, 0, 10, 0, 0, 1, 10, 0, 0, 2 :: byte]"
  let ?r = "\<lambda>i :: nat. if i = 0 then ReadOk (?pre @ ?pay @ []) 20 else ReadError"
  have 1: "length ?pre = 4" by simp
  have 2: "length ?pay = 20" by simp
  have 3: "(24 :: nat) \<le> 1504" by simp
  have 4: "?r 0 = ReadOk (?pre @ ?pay @ []) 20" by simp
  have 5: "?r 1 = ReadError" by simp
  have t: "tagged ?pay = [(IPv4ProtocolNumber, ?pay)]"
    by (simp add: tagged_def version_nibble_def)
  show ?thesis
    using pump_unix_strips_prefix[OF 1 2 3 4 5, of "\<lparr>inbound = [], outbound = []\<rparr>"]
    by (simp add: t)
qed

section \<open>The push producer\<close>

lemma wsum_be16: "n < 65536 \<Longrightarrow> wsum (be16 n) = n"
proof -
  assume n: "n < 65536"
  have "unat (word_of_nat (n div 256) :: byte) = n div 256"
    using n by (simp add: unat_of_nat)
  moreover have "unat (word_of_nat n :: byte) = n mod 256"
    by (simp add: unat_of_nat)
  ultimately show ?thesis by (simp add: be16_def)
qed

lemma unat_low_byte32: "unat (ucast (y :: 32 word) :: byte) = unat y mod 256"
  by (simp add: unsigned_ucast_eq take_bit_eq_mod)

lemma proto_byte: "unat (ucast (ucast (x :: byte) :: 32 word) :: byte) = unat x"
  unfolding unat_low_byte32[of "ucast x"] unat_ucast_byte32
  using unat_byte_lt[of x] by simp

lemma proto_is:
  "(ucast (x :: byte) :: 32 word) = UDPProtocolNumber \<longleftrightarrow> unat x = 17"
  "(ucast (x :: byte) :: 32 word) = TCPProtocolNumber \<longleftrightarrow> unat x = 6"
  using unat_ucast_byte32[of x]
  by (auto simp: UDPProtocolNumber_def TCPProtocolNumber_def word_unat_eq_iff)

lemma segment_nth:
  "k < l \<Longrightarrow> o' + l \<le> length mem \<Longrightarrow> take l (drop o' mem) ! k = mem ! (o' + k)"
  by simp

lemma segment_u16:
  "k + 2 \<le> l \<Longrightarrow> o' + l \<le> length mem \<Longrightarrow>
   u16_at (take l (drop o' mem)) k = u16_at mem (o' + k)"
  by (simp add: u16_at_def add.assoc)

lemma wsum_pseudo4:
  assumes "20 \<le> length b" and "length (ipv4_segment b) < 65536"
  shows "wsum (pseudo4 b) =
           wsum (take 4 (drop 16 b)) + wsum (take 4 (drop 12 b)) +
           length (ipv4_segment b) + unat (b ! 9)"
proof -
  have "even (length (take 4 (drop 12 b)))" "even (length (take 4 (drop 16 b)))"
    using assms(1) by simp_all
  then show ?thesis
    unfolding pseudo4_def
    by (simp add: wsum_append wsum_be16[OF assms(2)])
qed

lemma wsum_pseudo6:
  assumes "40 \<le> length b" and "length (ipv6_segment b) < 65536"
  shows "wsum (pseudo6 b) =
           wsum (take 16 (drop 24 b)) + wsum (take 16 (drop 8 b)) +
           length (ipv6_segment b) + unat (b ! 6)"
proof -
  have e: "even (length (take 16 (drop 8 b)))" "even (length (take 16 (drop 24 b)))"
    using assms(1) by simp_all
  obtain x y where xy: "be16 (length (ipv6_segment b)) = [x, y]"
    by (simp add: be16_def)
  have "wsum [x, y] = length (ipv6_segment b)"
    using wsum_be16[OF assms(2)] by (simp only: xy)
  then have "wsum ([0, 0] @ be16 (length (ipv6_segment b)) @ [0, 0, 0, b ! 6]) =
          length (ipv6_segment b) + unat (b ! 6)"
    unfolding xy by simp
  then show ?thesis
    unfolding pseudo6_def using e by (simp only: wsum_append)
qed

lemma version_nibble_set16:
  "0 < i \<Longrightarrow> version_nibble (set16 b i v) = version_nibble b"
  by (cases b) (simp_all add: version_nibble_def set16_def list_update_code split: nat.splits)

lemma untouched_by_set16:
  assumes "k + l \<le> i"
  shows "take l (drop k (set16 b i v)) = take l (drop k b)"
  using assms by (simp add: set16_def drop_update_swap take_update_cancel)

lemma u16_le: "u16_at mem i \<le> 65535"
  using unat_byte_lt[of "mem ! i"] unat_byte_lt[of "mem ! (i + 1)"]
  by (simp add: u16_at_def)

text \<open>
  The value the code stores in the transport checksum field, as a number: the fold of
  what the pseudo-header contributes (\<open>p\<close>) and the word sum of the segment with the
  field cleared.
\<close>

lemma transport_field_value:
  assumes "even d" and "i + 2 \<le> d" and "d \<le> l" and "o' + l \<le> length mem"
    and "l \<le> 65535" and "unat s0 = oc p"
  shows "unat (Checksum (take d (drop o' (set16 mem (o' + i) 0)))
                 (Checksum (take (l - d) (drop (o' + d) mem)) s0)) =
         oc (p + wsum (take l (drop o' (set16 mem (o' + i) 0))))"
proof -
  let ?seg = "take l (drop o' mem)"
  let ?z = "set16 ?seg i 0"
  have il: "i + 2 \<le> l" using assms(2,3) by simp
  have len: "length ?seg = l" using assms(4) by simp
  have h: "take d (drop o' (set16 mem (o' + i) 0)) = take d ?z"
  proof -
    have "take d ?z = take d (take l (drop o' (set16 mem (o' + i) 0)))"
      by (simp only: take_drop_set16[OF il])
    also have "\<dots> = take d (drop o' (set16 mem (o' + i) 0))"
      using assms(3) by (simp add: min_def)
    finally show ?thesis by simp
  qed
  have pl: "take (l - d) (drop (o' + d) mem) = drop d ?z"
  proof -
    have "drop d ?z = drop d ?seg" using assms(2) by (simp add: drop_set16_outside)
    also have "\<dots> = take (l - d) (drop (o' + d) mem)"
      by (simp add: drop_take add.commute)
    finally show ?thesis by simp
  qed
  have lz: "length (drop d ?z) \<le> 65600" "length (take d ?z) \<le> 65600"
    using assms(5) len by simp_all
  have "unat (Checksum (drop d ?z) s0) = oc (p + wsum (drop d ?z))"
    by (rule Checksum_oc[OF lz(1) assms(6)])
  then have "unat (Checksum (take d ?z) (Checksum (drop d ?z) s0)) =
               oc (p + wsum (drop d ?z) + wsum (take d ?z))"
    by (rule Checksum_oc[OF lz(2)])
  then have "unat (Checksum (take d ?z) (Checksum (drop d ?z) s0)) = oc (p + wsum ?z)"
    using wsum_take_drop[OF assms(1), of ?z] by (simp add: add.commute add.left_commute)
  then show ?thesis unfolding h pl by (simp only: take_drop_set16[OF il])
qed

text \<open>
  Whatever verification sum \<open>tsum\<close> is the fold of \<open>p\<close> and the segment's word sum:
  the code stores the complement of that sum taken with the field cleared, and the
  packet it leaves verifies.
\<close>

lemma transport_repair:
  fixes tsum :: "bytes \<Rightarrow> 16 word"
  assumes "even d" and "even i" and "i + 2 \<le> d" and "d \<le> l" and "o' + l \<le> length mem"
    and "l \<le> 65535" and "unat s0 = oc p"
    and S: "\<And>x. unat (tsum (set16 mem (o' + i) x)) =
                 oc (p + wsum (take l (drop o' (set16 mem (o' + i) x))))"
  shows "Checksum (take d (drop o' (set16 mem (o' + i) 0)))
           (Checksum (take (l - d) (drop (o' + d) mem)) s0) =
         tsum (set16 mem (o' + i) 0)"
    and "tsum (set16 mem (o' + i) (NOT (tsum (set16 mem (o' + i) 0)))) = 0xFFFF"
proof -
  let ?c = "Checksum (take d (drop o' (set16 mem (o' + i) 0)))
              (Checksum (take (l - d) (drop (o' + d) mem)) s0)"
  have "unat ?c = unat (tsum (set16 mem (o' + i) 0))"
    unfolding S by (rule transport_field_value[OF assms(1,3,4,5,6,7)])
  then show c: "?c = tsum (set16 mem (o' + i) 0)" by (simp add: word_unat_eq_iff)
  have "unat (tsum (set16 mem (o' + i) (NOT ?c))) = 65535"
    unfolding S by (rule transport_roundtrip[OF assms(1-7)])
  then show "tsum (set16 mem (o' + i) (NOT (tsum (set16 mem (o' + i) 0)))) = 0xFFFF"
    unfolding c by (rule word16_all_ones)
qed

subsection \<open>The inner switch, case by case\<close>

lemma ipv4_ok_facts:
  assumes "ipv4_header_ok mem"
  shows "20 \<le> length mem" and "version_nibble mem = Some 4" and "20 \<le> ipv4_hlen mem"
    and "ipv4_hlen mem \<le> u16_at mem 2" and "u16_at mem 2 \<le> length mem"
    and "ipv4_segment mem = take (u16_at mem 2 - ipv4_hlen mem) (drop (ipv4_hlen mem) mem)"
    and "length (ipv4_segment mem) = u16_at mem 2 - ipv4_hlen mem"
    and "u16_at mem 2 - ipv4_hlen mem \<le> length mem - ipv4_hlen mem"
    and "u16_at mem 2 - ipv4_hlen mem \<le> 65535"
  using assms u16_le[of mem 2] by (auto simp: ipv4_header_ok_def ipv4_segment_def)

lemma ipv6_ok_facts:
  assumes "ipv6_header_ok mem"
  shows "40 \<le> length mem" and "version_nibble mem = Some 6" and "40 + u16_at mem 4 \<le> length mem"
    and "ipv6_segment mem = take (u16_at mem 4) (drop 40 mem)"
    and "length (ipv6_segment mem) = u16_at mem 4"
    and "u16_at mem 4 \<le> length mem - 40"
    and "u16_at mem 4 \<le> 65535"
  using assms u16_le[of mem 4] by (auto simp: ipv6_header_ok_def ipv6_segment_def)

lemma Write_IPv4_transport_udp_run:
  assumes ok: "ipv4_header_ok mem" and p: "unat (mem ! 9) = 17"
    and l8: "8 \<le> length (ipv4_segment mem)"
  shows "\<exists>w. unat w = u16_at mem (ipv4_hlen mem + 4) \<and>
          Write_IPv4_transport mem (whole (length mem)) =
            Some (set16 mem (ipv4_hlen mem + 6)
              (NOT (Checksum (take 8 (drop (ipv4_hlen mem) (set16 mem (ipv4_hlen mem + 6) 0)))
                 (Checksum (take (length (ipv4_segment mem) - 8) (drop (ipv4_hlen mem + 8) mem))
                    (PseudoHeaderChecksum (ucast (mem ! 9)) (take 4 (drop 16 mem))
                       (take 4 (drop 12 mem)) w)))))"
proof -
  note f = ipv4_ok_facts[OF ok]
  let ?h = "ipv4_hlen mem" and ?l = "u16_at mem 2 - ipv4_hlen mem"
  let ?hdr = "\<lparr>off = ?h, len = ?l, cap = length mem - ?h\<rparr>"
  have l8': "8 \<le> ?l" using l8 by (simp add: f(7))
  obtain w where w: "UDP_Length mem ?hdr = Some w" "unat w = u16_at mem (?h + 4)"
    using UDP_Length_closed[of ?hdr mem] l8' f(8) by auto
  have "Write_IPv4_transport mem (whole (length mem)) =
          udpChecksum mem ?hdr (PseudoHeaderChecksum (ucast (mem ! 9)) (take 4 (drop 16 mem))
                       (take 4 (drop 12 mem)) w)"
    using f(1,4,5) p
    by (simp add: Write_IPv4_transport_def IPv4_TransportProtocol_closed proto_is
        IPv4_Payload_closed IPv4_addresses_closed w)
  moreover have "udpChecksum mem ?hdr s0 =
      Some (set16 mem (?h + 6)
              (NOT (Checksum (take 8 (drop ?h (set16 mem (?h + 6) 0)))
                 (Checksum (take (?l - 8) (drop (?h + 8) mem)) s0))))" for s0
    using udpChecksum_closed[of ?hdr mem s0] l8' f(8) by simp
  ultimately show ?thesis
    unfolding f(7) using w(2) by (intro exI[of _ w]) simp
qed

lemma Write_IPv4_transport_udp_panic:
  assumes ok: "ipv4_header_ok mem" and p: "unat (mem ! 9) = 17"
    and l8: "length (ipv4_segment mem) < 8"
  shows "Write_IPv4_transport mem (whole (length mem)) = None"
proof -
  note f = ipv4_ok_facts[OF ok]
  let ?h = "ipv4_hlen mem" and ?l = "u16_at mem 2 - ipv4_hlen mem"
  let ?hdr = "\<lparr>off = ?h, len = ?l, cap = length mem - ?h\<rparr>"
  have l8': "?l < 8" using l8 by (simp add: f(7))
  have "UDP_Length mem ?hdr \<bind> (\<lambda>l. udpChecksum mem ?hdr (s l)) = None" for s
  proof (cases "UDP_Length mem ?hdr")
    case None
    then show ?thesis by simp
  next
    case (Some w)
    have "UDP_Payload ?hdr = None" using l8' by (simp add: UDP_Payload_def slice_from_def reslice_def)
    then show ?thesis by (simp add: Some udpChecksum_def)
  qed
  then show ?thesis
    using f(1,4,5) p
    by (simp add: Write_IPv4_transport_def IPv4_TransportProtocol_closed proto_is
        IPv4_Payload_closed IPv4_addresses_closed)
qed

lemma Put_short: "len s < 2 \<Longrightarrow> Put mem s v = None"
  by (simp add: Put_def PutUint16_def index_def)

lemma tcpChecksum_panic:
  assumes "len hdr \<le> cap hdr"
    and "len hdr < 18 \<or> len hdr < 4 * (unat (mem ! (off hdr + 12)) div 16)"
  shows "tcpChecksum mem hdr s0 = None"
proof (cases "len hdr < 13")
  case True
  then have "TCP_DataOffset mem hdr = None" by (simp add: TCP_DataOffset_def index_def)
  then show ?thesis by (simp add: tcpChecksum_def TCP_Payload_def)
next
  case False
  then obtain w where w: "TCP_DataOffset mem hdr = Some w"
    "unat w = 4 * (unat (mem ! (off hdr + 12)) div 16)"
    using TCP_DataOffset_closed[of hdr mem] by auto
  show ?thesis
  proof (cases "len hdr < unat w")
    case True
    then show ?thesis
      by (simp add: tcpChecksum_def TCP_Payload_def w(1) slice_from_def reslice_def)
  next
    case False
    then have s: "len hdr < 18" using assms(2) w(2) by simp
    have "TCP_SetChecksum mem hdr 0 = None"
    proof (cases "len hdr < 16")
      case True
      then show ?thesis by (simp add: TCP_SetChecksum_def slice_from_def reslice_def)
    next
      case False
      let ?s = "\<lparr>off = off hdr + 16, len = len hdr - 16, cap = cap hdr - 16\<rparr>"
      have "len ?s < 2" using s by simp
      then have "Put mem ?s 0 = None" by (rule Put_short)
      then show ?thesis
        using False assms(1)
        by (simp add: TCP_SetChecksum_def slice_from_def reslice_def)
    qed
    then show ?thesis
      using False assms(1)
      by (simp add: tcpChecksum_def TCP_Payload_def w(1) slice_from_def reslice_def Let_def)
  qed
qed

lemma Write_IPv4_transport_tcp_run:
  assumes ok: "ipv4_header_ok mem" and p: "unat (mem ! 9) = 6"
    and r: "18 \<le> length (ipv4_segment mem)" "tcp_doff (ipv4_segment mem) \<le> length (ipv4_segment mem)"
  shows "\<exists>w. unat w = length (ipv4_segment mem) \<and>
          Write_IPv4_transport mem (whole (length mem)) =
            Some (set16 mem (ipv4_hlen mem + 16)
              (NOT (Checksum (take (tcp_doff (ipv4_segment mem))
                               (drop (ipv4_hlen mem) (set16 mem (ipv4_hlen mem + 16) 0)))
                 (Checksum (take (length (ipv4_segment mem) - tcp_doff (ipv4_segment mem))
                              (drop (ipv4_hlen mem + tcp_doff (ipv4_segment mem)) mem))
                    (PseudoHeaderChecksum (ucast (mem ! 9)) (take 4 (drop 16 mem))
                       (take 4 (drop 12 mem)) w)))))"
proof -
  note f = ipv4_ok_facts[OF ok]
  let ?h = "ipv4_hlen mem" and ?l = "u16_at mem 2 - ipv4_hlen mem"
  let ?hdr = "\<lparr>off = ?h, len = ?l, cap = length mem - ?h\<rparr>"
  have l18: "18 \<le> ?l" using r(1) by (simp add: f(7))
  have fit: "?h + ?l \<le> length mem" using f(4,5) by simp
  have d: "tcp_doff (ipv4_segment mem) = 4 * (unat (mem ! (?h + 12)) div 16)"
    using segment_nth[of 12 ?l ?h mem] l18 fit by (simp add: tcp_doff_def f(6))
  have dl: "tcp_doff (ipv4_segment mem) \<le> ?l" using r(2) by (simp add: f(7))
  obtain w where w: "IPv4_PayloadLength mem (whole (length mem)) = Some w" "unat w = ?l"
    using IPv4_PayloadLength_closed[of "length mem" mem] f(1,4) by auto
  have "Write_IPv4_transport mem (whole (length mem)) =
          tcpChecksum mem ?hdr (PseudoHeaderChecksum (ucast (mem ! 9)) (take 4 (drop 16 mem))
                       (take 4 (drop 12 mem)) w)"
    using f(1,4,5) p
    by (simp add: Write_IPv4_transport_def IPv4_TransportProtocol_closed proto_is
        IPv4_Payload_closed IPv4_addresses_closed w)
  moreover have "tcpChecksum mem ?hdr s0 =
      Some (set16 mem (?h + 16)
              (NOT (Checksum (take (tcp_doff (ipv4_segment mem))
                               (drop ?h (set16 mem (?h + 16) 0)))
                 (Checksum (take (?l - tcp_doff (ipv4_segment mem))
                              (drop (?h + tcp_doff (ipv4_segment mem)) mem)) s0))))" for s0
    using tcpChecksum_closed[of ?hdr "tcp_doff (ipv4_segment mem)" mem s0] l18 f(8) d dl by simp
  ultimately show ?thesis
    unfolding f(7) using w(2) by (intro exI[of _ w]) simp
qed

lemma Write_IPv4_transport_tcp_panic:
  assumes ok: "ipv4_header_ok mem" and p: "unat (mem ! 9) = 6"
    and r: "\<not> (18 \<le> length (ipv4_segment mem) \<and>
                tcp_doff (ipv4_segment mem) \<le> length (ipv4_segment mem))"
  shows "Write_IPv4_transport mem (whole (length mem)) = None"
proof -
  note f = ipv4_ok_facts[OF ok]
  let ?h = "ipv4_hlen mem" and ?l = "u16_at mem 2 - ipv4_hlen mem"
  let ?hdr = "\<lparr>off = ?h, len = ?l, cap = length mem - ?h\<rparr>"
  have fit: "?h + ?l \<le> length mem" using f(4,5) by simp
  have "?l < 18 \<or> ?l < 4 * (unat (mem ! (?h + 12)) div 16)"
  proof (cases "?l < 18")
    case False
    then have "tcp_doff (ipv4_segment mem) = 4 * (unat (mem ! (?h + 12)) div 16)"
      using segment_nth[of 12 ?l ?h mem] fit by (simp add: tcp_doff_def f(6))
    then show ?thesis using r False by (simp add: f(7))
  qed simp
  then have "tcpChecksum mem ?hdr s0 = None" for s0
    using tcpChecksum_panic[of ?hdr mem] f(8) by simp
  moreover obtain w where "IPv4_PayloadLength mem (whole (length mem)) = Some w"
    using IPv4_PayloadLength_closed[of "length mem" mem] f(1,4) by auto
  ultimately show ?thesis
    using f(1,4,5) p
    by (simp add: Write_IPv4_transport_def IPv4_TransportProtocol_closed proto_is
        IPv4_Payload_closed IPv4_addresses_closed)
qed

lemma Write_IPv4_transport_other:
  assumes "10 \<le> length mem" and "unat (mem ! 9) \<noteq> 17" and "unat (mem ! 9) \<noteq> 6"
  shows "Write_IPv4_transport mem (whole (length mem)) = Some mem"
  using assms
  by (simp add: Write_IPv4_transport_def IPv4_TransportProtocol_closed proto_is)

lemma Write_IPv6_udp_run:
  assumes ok: "ipv6_header_ok mem" and p: "unat (mem ! 6) = 17"
    and l8: "8 \<le> length (ipv6_segment mem)"
  shows "\<exists>w. unat w = u16_at mem 44 \<and>
          Write_IPv6 mem (whole (length mem)) =
            Some (set16 mem 46
              (NOT (Checksum (take 8 (drop 40 (set16 mem 46 0)))
                 (Checksum (take (length (ipv6_segment mem) - 8) (drop 48 mem))
                    (PseudoHeaderChecksum (ucast (mem ! 6)) (take 16 (drop 24 mem))
                       (take 16 (drop 8 mem)) w)))))"
proof -
  note f = ipv6_ok_facts[OF ok]
  let ?l = "u16_at mem 4"
  let ?hdr = "\<lparr>off = 40, len = ?l, cap = length mem - 40\<rparr>"
  have l8': "8 \<le> ?l" using l8 by (simp add: f(5))
  obtain w where w: "UDP_Length mem ?hdr = Some w" "unat w = u16_at mem (40 + 4)"
    using UDP_Length_closed[of ?hdr mem] l8' f(6) by auto
  have "Write_IPv6 mem (whole (length mem)) =
          udpChecksum mem ?hdr (PseudoHeaderChecksum (ucast (mem ! 6)) (take 16 (drop 24 mem))
                       (take 16 (drop 8 mem)) w)"
    using f(1,3) p
    by (simp add: Write_IPv6_def IPv6_TransportProtocol_closed proto_is
        IPv6_Payload_closed IPv6_addresses_closed w)
  moreover have "udpChecksum mem ?hdr s0 =
      Some (set16 mem 46
              (NOT (Checksum (take 8 (drop 40 (set16 mem 46 0)))
                 (Checksum (take (?l - 8) (drop 48 mem)) s0))))" for s0
    using udpChecksum_closed[of ?hdr mem s0] l8' f(6) by simp
  ultimately show ?thesis
    unfolding f(5) using w(2) by (intro exI[of _ w]) simp
qed

lemma Write_IPv6_udp_panic:
  assumes ok: "ipv6_header_ok mem" and p: "unat (mem ! 6) = 17"
    and l8: "length (ipv6_segment mem) < 8"
  shows "Write_IPv6 mem (whole (length mem)) = None"
proof -
  note f = ipv6_ok_facts[OF ok]
  let ?l = "u16_at mem 4"
  let ?hdr = "\<lparr>off = 40, len = ?l, cap = length mem - 40\<rparr>"
  have l8': "?l < 8" using l8 by (simp add: f(5))
  have "UDP_Length mem ?hdr \<bind> (\<lambda>l. udpChecksum mem ?hdr (s l)) = None" for s
  proof (cases "UDP_Length mem ?hdr")
    case None
    then show ?thesis by simp
  next
    case (Some w)
    have "UDP_Payload ?hdr = None" using l8' by (simp add: UDP_Payload_def slice_from_def reslice_def)
    then show ?thesis by (simp add: Some udpChecksum_def)
  qed
  then show ?thesis
    using f(1,3) p
    by (simp add: Write_IPv6_def IPv6_TransportProtocol_closed proto_is
        IPv6_Payload_closed IPv6_addresses_closed)
qed

lemma Write_IPv6_tcp_run:
  assumes ok: "ipv6_header_ok mem" and p: "unat (mem ! 6) = 6"
    and r: "18 \<le> length (ipv6_segment mem)" "tcp_doff (ipv6_segment mem) \<le> length (ipv6_segment mem)"
  shows "\<exists>w. unat w = length (ipv6_segment mem) \<and>
          Write_IPv6 mem (whole (length mem)) =
            Some (set16 mem 56
              (NOT (Checksum (take (tcp_doff (ipv6_segment mem)) (drop 40 (set16 mem 56 0)))
                 (Checksum (take (length (ipv6_segment mem) - tcp_doff (ipv6_segment mem))
                              (drop (40 + tcp_doff (ipv6_segment mem)) mem))
                    (PseudoHeaderChecksum (ucast (mem ! 6)) (take 16 (drop 24 mem))
                       (take 16 (drop 8 mem)) w)))))"
proof -
  note f = ipv6_ok_facts[OF ok]
  let ?l = "u16_at mem 4"
  let ?hdr = "\<lparr>off = 40, len = ?l, cap = length mem - 40\<rparr>"
  have l18: "18 \<le> ?l" using r(1) by (simp add: f(5))
  have d: "tcp_doff (ipv6_segment mem) = 4 * (unat (mem ! (40 + 12)) div 16)"
    using segment_nth[of 12 ?l 40 mem] l18 f(3) by (simp add: tcp_doff_def f(4))
  have dl: "tcp_doff (ipv6_segment mem) \<le> ?l" using r(2) by (simp add: f(5))
  obtain w where w: "IPv6_PayloadLength mem (whole (length mem)) = Some w" "unat w = ?l"
    using IPv6_PayloadLength_closed[of "length mem" mem] f(1) by auto
  have "Write_IPv6 mem (whole (length mem)) =
          tcpChecksum mem ?hdr (PseudoHeaderChecksum (ucast (mem ! 6)) (take 16 (drop 24 mem))
                       (take 16 (drop 8 mem)) w)"
    using f(1,3) p
    by (simp add: Write_IPv6_def IPv6_TransportProtocol_closed proto_is
        IPv6_Payload_closed IPv6_addresses_closed w)
  moreover have "tcpChecksum mem ?hdr s0 =
      Some (set16 mem 56
              (NOT (Checksum (take (tcp_doff (ipv6_segment mem)) (drop 40 (set16 mem 56 0)))
                 (Checksum (take (?l - tcp_doff (ipv6_segment mem))
                              (drop (40 + tcp_doff (ipv6_segment mem)) mem)) s0))))" for s0
    using tcpChecksum_closed[of ?hdr "tcp_doff (ipv6_segment mem)" mem s0] l18 f(6) d dl by simp
  ultimately show ?thesis
    unfolding f(5) using w(2) by (intro exI[of _ w]) simp
qed

lemma Write_IPv6_tcp_panic:
  assumes ok: "ipv6_header_ok mem" and p: "unat (mem ! 6) = 6"
    and r: "\<not> (18 \<le> length (ipv6_segment mem) \<and>
                tcp_doff (ipv6_segment mem) \<le> length (ipv6_segment mem))"
  shows "Write_IPv6 mem (whole (length mem)) = None"
proof -
  note f = ipv6_ok_facts[OF ok]
  let ?l = "u16_at mem 4"
  let ?hdr = "\<lparr>off = 40, len = ?l, cap = length mem - 40\<rparr>"
  have "?l < 18 \<or> ?l < 4 * (unat (mem ! (40 + 12)) div 16)"
  proof (cases "?l < 18")
    case False
    then have "tcp_doff (ipv6_segment mem) = 4 * (unat (mem ! (40 + 12)) div 16)"
      using segment_nth[of 12 ?l 40 mem] f(3) by (simp add: tcp_doff_def f(4))
    then show ?thesis using r False by (simp add: f(5))
  qed simp
  then have "tcpChecksum mem ?hdr s0 = None" for s0
    using tcpChecksum_panic[of ?hdr mem] f(6) by simp
  moreover obtain w where "IPv6_PayloadLength mem (whole (length mem)) = Some w"
    using IPv6_PayloadLength_closed[of "length mem" mem] f(1) by auto
  ultimately show ?thesis
    using f(1,3) p
    by (simp add: Write_IPv6_def IPv6_TransportProtocol_closed proto_is
        IPv6_Payload_closed IPv6_addresses_closed)
qed

lemma Write_IPv6_other:
  assumes "7 \<le> length mem" and "unat (mem ! 6) \<noteq> 17" and "unat (mem ! 6) \<noteq> 6"
  shows "Write_IPv6 mem (whole (length mem)) = Some mem"
  using assms
  by (simp add: Write_IPv6_def IPv6_TransportProtocol_closed proto_is)

subsection \<open>The verification sum as a number\<close>

lemma transport_sum4_nat:
  assumes ok: "ipv4_header_ok mem" and k: "20 \<le> k"
  shows "unat (transport_sum (set16 mem k x)) =
           oc (wsum (take 4 (drop 16 mem)) + wsum (take 4 (drop 12 mem)) +
               length (ipv4_segment mem) + unat (mem ! 9) +
               wsum (take (length (ipv4_segment mem)) (drop (ipv4_hlen mem) (set16 mem k x))))"
proof -
  note f = ipv4_ok_facts[OF ok]
  let ?m = "set16 mem k x" and ?h = "ipv4_hlen mem" and ?l = "u16_at mem 2 - ipv4_hlen mem"
  have same: "version_nibble ?m = Some 4" "ipv4_hlen ?m = ?h" "u16_at ?m 2 = u16_at mem 2"
    "?m ! 9 = mem ! 9" "take 4 (drop 16 ?m) = take 4 (drop 16 mem)"
    "take 4 (drop 12 ?m) = take 4 (drop 12 mem)"
    using k f(2)
    by (simp_all add: version_nibble_set16 ipv4_hlen_def u16_at_def nth_set16_other
        untouched_by_set16)
  have sgm: "ipv4_segment ?m = take ?l (drop ?h ?m)"
    by (simp add: ipv4_segment_def same)
  have lsm: "length (ipv4_segment ?m) = ?l" using f(4,5) by (simp add: sgm)
  have ps: "wsum (pseudo4 ?m) =
      wsum (take 4 (drop 16 mem)) + wsum (take 4 (drop 12 mem)) + ?l + unat (mem ! 9)"
    using wsum_pseudo4[of ?m] f(1,9) by (simp add: lsm same)
  have "length (pseudo4 ?m @ ipv4_segment ?m) \<le> 65600"
    using f(1,9) lsm by (simp add: pseudo4_def be16_def)
  then have "unat (Checksum (pseudo4 ?m @ ipv4_segment ?m) 0) =
          oc (0 + wsum (pseudo4 ?m @ ipv4_segment ?m))"
    by (intro Checksum_oc) (simp_all add: oc_def)
  moreover have "even (length (pseudo4 ?m))" using f(1) by (simp add: pseudo4_def be16_def)
  ultimately show ?thesis
    by (simp add: transport_sum_def same wsum_append ps sgm f(7))
qed

lemma transport_sum6_nat:
  assumes ok: "ipv6_header_ok mem" and k: "40 \<le> k"
  shows "unat (transport_sum (set16 mem k x)) =
           oc (wsum (take 16 (drop 24 mem)) + wsum (take 16 (drop 8 mem)) +
               length (ipv6_segment mem) + unat (mem ! 6) +
               wsum (take (length (ipv6_segment mem)) (drop 40 (set16 mem k x))))"
proof -
  note f = ipv6_ok_facts[OF ok]
  let ?m = "set16 mem k x" and ?l = "u16_at mem 4"
  have same: "version_nibble ?m = Some 6" "u16_at ?m 4 = u16_at mem 4"
    "?m ! 6 = mem ! 6" "take 16 (drop 24 ?m) = take 16 (drop 24 mem)"
    "take 16 (drop 8 ?m) = take 16 (drop 8 mem)"
    using k f(2)
    by (simp_all add: version_nibble_set16 u16_at_def nth_set16_other untouched_by_set16)
  have sgm: "ipv6_segment ?m = take ?l (drop 40 ?m)"
    by (simp add: ipv6_segment_def same)
  have lsm: "length (ipv6_segment ?m) = ?l" using f(3) by (simp add: sgm)
  have ps: "wsum (pseudo6 ?m) =
      wsum (take 16 (drop 24 mem)) + wsum (take 16 (drop 8 mem)) + ?l + unat (mem ! 6)"
    using wsum_pseudo6[of ?m] f(1,7) by (simp add: lsm same)
  have "length (pseudo6 ?m @ ipv6_segment ?m) \<le> 65600"
    using f(1,7) lsm by (simp add: pseudo6_def be16_def)
  then have "unat (Checksum (pseudo6 ?m @ ipv6_segment ?m) 0) =
          oc (0 + wsum (pseudo6 ?m @ ipv6_segment ?m))"
    by (intro Checksum_oc) (simp_all add: oc_def)
  moreover have "even (length (pseudo6 ?m))" using f(1) by (simp add: pseudo6_def be16_def)
  ultimately show ?thesis
    by (simp add: transport_sum_def same wsum_append ps sgm f(5))
qed

subsection \<open>Valid segments\<close>

lemma Write_IPv4_transport_valid:
  assumes ok: "ipv4_header_ok mem"
    and v: "unat (mem ! 9) = 17 \<and> udp_segment_ok (ipv4_segment mem) \<or>
            unat (mem ! 9) = 6 \<and> tcp_segment_ok (ipv4_segment mem)"
  shows "Write_IPv4_transport mem (whole (length mem)) =
           Some (set16 mem (transport_field mem)
                   (NOT (transport_sum (set16 mem (transport_field mem) 0))))"
    and "transport_sum (set16 mem (transport_field mem)
           (NOT (transport_sum (set16 mem (transport_field mem) 0)))) = 0xFFFF"
proof -
  note f = ipv4_ok_facts[OF ok]
  let ?h = "ipv4_hlen mem" and ?l = "length (ipv4_segment mem)"
  let ?p = "wsum (take 4 (drop 16 mem)) + wsum (take 4 (drop 12 mem)) + ?l + unat (mem ! 9)"
  have fit: "?h + ?l \<le> length mem" using f(4,5,7) by simp
  have l16: "?l \<le> 65535" using f(7,9) by simp
  have S: "unat (transport_sum (set16 mem (?h + i) x)) =
             oc (?p + wsum (take ?l (drop ?h (set16 mem (?h + i) x))))" for i x
    using transport_sum4_nat[OF ok, of "?h + i" x] f(3) by simp
  from v have "Write_IPv4_transport mem (whole (length mem)) =
           Some (set16 mem (transport_field mem)
                   (NOT (transport_sum (set16 mem (transport_field mem) 0)))) \<and>
        transport_sum (set16 mem (transport_field mem)
           (NOT (transport_sum (set16 mem (transport_field mem) 0)))) = 0xFFFF"
  proof (elim disjE conjE)
    assume p: "unat (mem ! 9) = 17" and s: "udp_segment_ok (ipv4_segment mem)"
    have l8: "8 \<le> ?l" and ul: "u16_at (ipv4_segment mem) 4 = ?l"
      using s by (simp_all add: udp_segment_ok_def)
    have tf: "transport_field mem = ?h + 6" by (simp add: transport_field_def f(2) p)
    obtain w where w: "unat w = u16_at mem (?h + 4)"
      and run: "Write_IPv4_transport mem (whole (length mem)) =
            Some (set16 mem (?h + 6)
              (NOT (Checksum (take 8 (drop ?h (set16 mem (?h + 6) 0)))
                 (Checksum (take (?l - 8) (drop (?h + 8) mem))
                    (PseudoHeaderChecksum (ucast (mem ! 9)) (take 4 (drop 16 mem))
                       (take 4 (drop 12 mem)) w)))))"
      using Write_IPv4_transport_udp_run[OF ok p l8] by blast
    have wl: "unat w = ?l"
      using ul segment_u16[of 4 ?l ?h mem] l8 fit f(6,7) by (simp add: w)
    have s0: "unat (PseudoHeaderChecksum (ucast (mem ! 9)) (take 4 (drop 16 mem))
                       (take 4 (drop 12 mem)) w) = oc ?p"
      by (simp add: PseudoHeaderChecksum_nat wl proto_byte)
    have e: "even (8 :: nat)" "even (6 :: nat)" "(6 :: nat) + 2 \<le> 8" by simp_all
    note r = transport_repair[where tsum = transport_sum, OF e l8 fit l16 s0 S]
    show ?thesis unfolding tf run r(1) using r(2) by simp
  next
    assume p: "unat (mem ! 9) = 6" and s: "tcp_segment_ok (ipv4_segment mem)"
    let ?d = "tcp_doff (ipv4_segment mem)"
    have l20: "20 \<le> ?l" and d: "20 \<le> ?d" "?d \<le> ?l"
      using s by (simp_all add: tcp_segment_ok_def)
    have tf: "transport_field mem = ?h + 16" by (simp add: transport_field_def f(2) p)
    obtain w where w: "unat w = ?l"
      and run: "Write_IPv4_transport mem (whole (length mem)) =
            Some (set16 mem (?h + 16)
              (NOT (Checksum (take ?d (drop ?h (set16 mem (?h + 16) 0)))
                 (Checksum (take (?l - ?d) (drop (?h + ?d) mem))
                    (PseudoHeaderChecksum (ucast (mem ! 9)) (take 4 (drop 16 mem))
                       (take 4 (drop 12 mem)) w)))))"
      using Write_IPv4_transport_tcp_run[OF ok p _ d(2)] l20 by auto
    have s0: "unat (PseudoHeaderChecksum (ucast (mem ! 9)) (take 4 (drop 16 mem))
                       (take 4 (drop 12 mem)) w) = oc ?p"
      by (simp add: PseudoHeaderChecksum_nat w proto_byte)
    have e: "even ?d" "even (16 :: nat)" "(16 :: nat) + 2 \<le> ?d"
      using d by (simp_all add: tcp_doff_def)
    note r = transport_repair[where tsum = transport_sum, OF e d(2) fit l16 s0 S]
    show ?thesis unfolding tf run r(1) using r(2) by simp
  qed
  then show "Write_IPv4_transport mem (whole (length mem)) =
           Some (set16 mem (transport_field mem)
                   (NOT (transport_sum (set16 mem (transport_field mem) 0))))"
    and "transport_sum (set16 mem (transport_field mem)
           (NOT (transport_sum (set16 mem (transport_field mem) 0)))) = 0xFFFF"
    by simp_all
qed

lemma Write_IPv6_transport_valid:
  assumes ok: "ipv6_header_ok mem"
    and v: "unat (mem ! 6) = 17 \<and> udp_segment_ok (ipv6_segment mem) \<or>
            unat (mem ! 6) = 6 \<and> tcp_segment_ok (ipv6_segment mem)"
  shows "Write_IPv6 mem (whole (length mem)) =
           Some (set16 mem (transport_field mem)
                   (NOT (transport_sum (set16 mem (transport_field mem) 0))))"
    and "transport_sum (set16 mem (transport_field mem)
           (NOT (transport_sum (set16 mem (transport_field mem) 0)))) = 0xFFFF"
proof -
  note f = ipv6_ok_facts[OF ok]
  let ?l = "length (ipv6_segment mem)"
  let ?p = "wsum (take 16 (drop 24 mem)) + wsum (take 16 (drop 8 mem)) + ?l + unat (mem ! 6)"
  have fit: "40 + ?l \<le> length mem" using f(3,5) by simp
  have l16: "?l \<le> 65535" using f(5,7) by simp
  have S: "unat (transport_sum (set16 mem (40 + i) x)) =
             oc (?p + wsum (take ?l (drop 40 (set16 mem (40 + i) x))))" for i x
    using transport_sum6_nat[OF ok, of "40 + i" x] by simp
  from v have "Write_IPv6 mem (whole (length mem)) =
           Some (set16 mem (transport_field mem)
                   (NOT (transport_sum (set16 mem (transport_field mem) 0)))) \<and>
        transport_sum (set16 mem (transport_field mem)
           (NOT (transport_sum (set16 mem (transport_field mem) 0)))) = 0xFFFF"
  proof (elim disjE conjE)
    assume p: "unat (mem ! 6) = 17" and s: "udp_segment_ok (ipv6_segment mem)"
    have l8: "8 \<le> ?l" and ul: "u16_at (ipv6_segment mem) 4 = ?l"
      using s by (simp_all add: udp_segment_ok_def)
    have tf: "transport_field mem = 40 + 6" by (simp add: transport_field_def f(2) p)
    obtain w where w: "unat w = u16_at mem 44"
      and run: "Write_IPv6 mem (whole (length mem)) =
            Some (set16 mem 46
              (NOT (Checksum (take 8 (drop 40 (set16 mem 46 0)))
                 (Checksum (take (?l - 8) (drop 48 mem))
                    (PseudoHeaderChecksum (ucast (mem ! 6)) (take 16 (drop 24 mem))
                       (take 16 (drop 8 mem)) w)))))"
      using Write_IPv6_udp_run[OF ok p l8] by blast
    have wl: "unat w = ?l"
      using ul segment_u16[of 4 ?l 40 mem] l8 fit f(4,5) by (simp add: w)
    have s0: "unat (PseudoHeaderChecksum (ucast (mem ! 6)) (take 16 (drop 24 mem))
                       (take 16 (drop 8 mem)) w) = oc ?p"
      by (simp add: PseudoHeaderChecksum_nat wl proto_byte)
    have e: "even (8 :: nat)" "even (6 :: nat)" "(6 :: nat) + 2 \<le> 8" by simp_all
    note r = transport_repair[where tsum = transport_sum, OF e l8 fit l16 s0 S]
    have run': "Write_IPv6 mem (whole (length mem)) =
            Some (set16 mem (40 + 6)
              (NOT (Checksum (take 8 (drop 40 (set16 mem (40 + 6) 0)))
                 (Checksum (take (?l - 8) (drop (40 + 8) mem))
                    (PseudoHeaderChecksum (ucast (mem ! 6)) (take 16 (drop 24 mem))
                       (take 16 (drop 8 mem)) w)))))"
      using run by simp
    show ?thesis unfolding tf run' r(1) using r(2) by simp
  next
    assume p: "unat (mem ! 6) = 6" and s: "tcp_segment_ok (ipv6_segment mem)"
    let ?d = "tcp_doff (ipv6_segment mem)"
    have l20: "20 \<le> ?l" and d: "20 \<le> ?d" "?d \<le> ?l"
      using s by (simp_all add: tcp_segment_ok_def)
    have tf: "transport_field mem = 40 + 16" by (simp add: transport_field_def f(2) p)
    obtain w where w: "unat w = ?l"
      and run: "Write_IPv6 mem (whole (length mem)) =
            Some (set16 mem 56
              (NOT (Checksum (take ?d (drop 40 (set16 mem 56 0)))
                 (Checksum (take (?l - ?d) (drop (40 + ?d) mem))
                    (PseudoHeaderChecksum (ucast (mem ! 6)) (take 16 (drop 24 mem))
                       (take 16 (drop 8 mem)) w)))))"
      using Write_IPv6_tcp_run[OF ok p _ d(2)] l20 by auto
    have s0: "unat (PseudoHeaderChecksum (ucast (mem ! 6)) (take 16 (drop 24 mem))
                       (take 16 (drop 8 mem)) w) = oc ?p"
      by (simp add: PseudoHeaderChecksum_nat w proto_byte)
    have e: "even ?d" "even (16 :: nat)" "(16 :: nat) + 2 \<le> ?d"
      using d by (simp_all add: tcp_doff_def)
    note r = transport_repair[where tsum = transport_sum, OF e d(2) fit l16 s0 S]
    have run': "Write_IPv6 mem (whole (length mem)) =
            Some (set16 mem (40 + 16)
              (NOT (Checksum (take ?d (drop 40 (set16 mem (40 + 16) 0)))
                 (Checksum (take (?l - ?d) (drop (40 + ?d) mem))
                    (PseudoHeaderChecksum (ucast (mem ! 6)) (take 16 (drop 24 mem))
                       (take 16 (drop 8 mem)) w)))))"
      using run by simp
    show ?thesis unfolding tf run' r(1) using r(2) by simp
  qed
  then show "Write_IPv6 mem (whole (length mem)) =
           Some (set16 mem (transport_field mem)
                   (NOT (transport_sum (set16 mem (transport_field mem) 0))))"
    and "transport_sum (set16 mem (transport_field mem)
           (NOT (transport_sum (set16 mem (transport_field mem) 0)))) = 0xFFFF"
    by simp_all
qed

subsection \<open>The whole of Write\<close>

lemma ipv4_hlen_le: "ipv4_hlen b \<le> 60"
proof -
  have "unat (b ! 0) mod 16 < 16" by simp
  then show ?thesis unfolding ipv4_hlen_def by linarith
qed

lemma header_fields_set16_10:
  assumes "20 \<le> ipv4_hlen b"
  shows "ipv4_hlen (set16 b 10 v) = ipv4_hlen b"
    and "u16_at (set16 b 10 v) 2 = u16_at b 2"
    and "set16 b 10 v ! 9 = b ! 9"
    and "version_nibble (set16 b 10 v) = version_nibble b"
    and "ipv4_segment (set16 b 10 v) = ipv4_segment b"
    and "ipv4_header_ok (set16 b 10 v) = ipv4_header_ok b"
proof -
  show 1: "ipv4_hlen (set16 b 10 v) = ipv4_hlen b"
    by (simp add: ipv4_hlen_def nth_set16_other)
  show 2: "u16_at (set16 b 10 v) 2 = u16_at b 2"
    by (simp add: u16_at_def nth_set16_other)
  show "set16 b 10 v ! 9 = b ! 9" by (simp add: nth_set16_other)
  show 4: "version_nibble (set16 b 10 v) = version_nibble b"
    by (simp add: version_nibble_set16)
  show "ipv4_segment (set16 b 10 v) = ipv4_segment b"
    using assms by (simp add: ipv4_segment_def 1 2 drop_set16_outside)
  show "ipv4_header_ok (set16 b 10 v) = ipv4_header_ok b"
    by (simp add: ipv4_header_ok_def 1 2 4)
qed

lemma IPVersion_whole:
  "IPVersion b (whole (length b)) = (case version_nibble b of None \<Rightarrow> - 1 | Some v \<Rightarrow> int v)"
  using IPVersion_nibble[of "whole (length b)" b] by (simp add: contents_whole) (simp add: whole_def)

lemma Write_IPv4_header_step:
  assumes ok: "ipv4_header_ok b"
  defines "c \<equiv> NOT (Checksum (set16 (take (ipv4_hlen b) b) 10 0) 0)"
  shows "Write_IPv4 b (whole (length b)) = Write_IPv4_transport (set16 b 10 c) (whole (length b))"
    and "Checksum (take (ipv4_hlen b) (set16 b 10 c)) 0 = 0xFFFF"
    and "take (ipv4_hlen b) (set16 b 10 c) = set16 (take (ipv4_hlen b) b) 10 c"
proof -
  note f = ipv4_ok_facts[OF ok]
  have h: "20 \<le> ipv4_hlen b" "ipv4_hlen b \<le> length b" using f(3,4,5) by simp_all
  have c': "c = NOT (Checksum (take (ipv4_hlen b) (set16 b 10 0)) 0)"
    using h by (simp add: c_def take_set16)
  note g = header_fields_set16_10[OF h(1)]
  show "Write_IPv4 b (whole (length b)) = Write_IPv4_transport (set16 b 10 c) (whole (length b))"
    using f(1) h
    by (simp add: Write_IPv4_def IPv4_SetChecksum_closed IPv4_CalculateChecksum_closed
        g set16_set16 c')
  show "Checksum (take (ipv4_hlen b) (set16 b 10 c)) 0 = 0xFFFF"
    unfolding c' using h ipv4_hlen_le[of b] by (intro header_roundtrip) simp_all
  show "take (ipv4_hlen b) (set16 b 10 c) = set16 (take (ipv4_hlen b) b) 10 c"
    using h by (simp add: take_set16)
qed

lemma Write_IPv4_ok:
  assumes ok: "ipv4_header_ok b"
  shows "if segment_readable (unat (b ! 9)) (ipv4_segment b)
         then \<exists>m. Write_IPv4 b (whole (length b)) = Some m \<and> length m = length b \<and>
                  take (ipv4_hlen b) m =
                    set16 (take (ipv4_hlen b) b) 10
                      (NOT (Checksum (set16 (take (ipv4_hlen b) b) 10 0) 0)) \<and>
                  ipv4_header_sum m = 0xFFFF
         else Write_IPv4 b (whole (length b)) = None"
proof -
  let ?n = "length b" and ?h = "ipv4_hlen b"
  define c where "c = NOT (Checksum (set16 (take ?h b) 10 0) 0)"
  let ?m2 = "set16 b 10 c"
  note f = ipv4_ok_facts[OF ok]
  note st = Write_IPv4_header_step[OF ok, folded c_def]
  note g = header_fields_set16_10[OF f(3), of c]
  have ok2: "ipv4_header_ok ?m2" using ok by (simp add: g)
  have n2: "length ?m2 = ?n" by simp
  have later: "length (set16 ?m2 (?h + i) v) = ?n \<and>
               take ?h (set16 ?m2 (?h + i) v) = set16 (take ?h b) 10 c \<and>
               ipv4_header_sum (set16 ?m2 (?h + i) v) = 0xFFFF" for i v
    using f(3) st(2,3)
    by (simp add: ipv4_header_sum_def ipv4_hlen_def nth_set16_other take_set16_outside)
  consider (udp) "unat (b ! 9) = 17" | (tcp) "unat (b ! 9) = 6"
    | (other) "unat (b ! 9) \<noteq> 17" "unat (b ! 9) \<noteq> 6" by blast
  then show ?thesis
  proof cases
    case udp
    then have p: "unat (?m2 ! 9) = 17" by (simp add: g)
    show ?thesis
    proof (cases "8 \<le> length (ipv4_segment b)")
      case True
      then have "8 \<le> length (ipv4_segment ?m2)" by (simp add: g)
      from Write_IPv4_transport_udp_run[OF ok2 p this]
      obtain v where "Write_IPv4_transport ?m2 (whole ?n) = Some (set16 ?m2 (?h + 6) v)"
        unfolding n2 g by blast
      then show ?thesis
        using later[of 6 v] True udp by (simp add: st(1) segment_readable_def c_def)
    next
      case False
      then have "length (ipv4_segment ?m2) < 8" by (simp add: g)
      from Write_IPv4_transport_udp_panic[OF ok2 p this]
      show ?thesis using False udp by (simp add: st(1) segment_readable_def)
    qed
  next
    case tcp
    then have p: "unat (?m2 ! 9) = 6" by (simp add: g)
    show ?thesis
    proof (cases "18 \<le> length (ipv4_segment b) \<and>
                  tcp_doff (ipv4_segment b) \<le> length (ipv4_segment b)")
      case True
      then have "18 \<le> length (ipv4_segment ?m2)"
        "tcp_doff (ipv4_segment ?m2) \<le> length (ipv4_segment ?m2)" by (simp_all add: g)
      from Write_IPv4_transport_tcp_run[OF ok2 p this]
      obtain v where "Write_IPv4_transport ?m2 (whole ?n) = Some (set16 ?m2 (?h + 16) v)"
        unfolding n2 g by blast
      then show ?thesis
        using later[of 16 v] True tcp by (simp add: st(1) segment_readable_def c_def)
    next
      case False
      then have "\<not> (18 \<le> length (ipv4_segment ?m2) \<and>
                tcp_doff (ipv4_segment ?m2) \<le> length (ipv4_segment ?m2))" by (simp add: g)
      from Write_IPv4_transport_tcp_panic[OF ok2 p this]
      show ?thesis using False tcp by (simp add: st(1) segment_readable_def)
    qed
  next
    case other
    then have "Write_IPv4_transport ?m2 (whole ?n) = Some ?m2"
      using Write_IPv4_transport_other[of ?m2] f(1) by (simp add: g)
    moreover have "ipv4_header_sum ?m2 = 0xFFFF"
      using st(2) by (simp add: ipv4_header_sum_def g)
    ultimately have "Write_IPv4 b (whole ?n) = Some ?m2 \<and> length ?m2 = ?n \<and>
        take ?h ?m2 = set16 (take ?h b) 10 c \<and> ipv4_header_sum ?m2 = 0xFFFF"
      using st(3) by (simp add: st(1))
    then show ?thesis
      using other unfolding c_def by (simp add: segment_readable_def)
  qed
qed

lemma Write_IPv6_ok:
  assumes ok: "ipv6_header_ok b"
  shows "if segment_readable (unat (b ! 6)) (ipv6_segment b)
         then \<exists>m. Write_IPv6 b (whole (length b)) = Some m \<and> length m = length b
         else Write_IPv6 b (whole (length b)) = None"
proof -
  note f = ipv6_ok_facts[OF ok]
  consider (udp) "unat (b ! 6) = 17" | (tcp) "unat (b ! 6) = 6"
    | (other) "unat (b ! 6) \<noteq> 17" "unat (b ! 6) \<noteq> 6" by blast
  then show ?thesis
  proof cases
    case udp
    show ?thesis
    proof (cases "8 \<le> length (ipv6_segment b)")
      case True
      from Write_IPv6_udp_run[OF ok udp this]
      obtain v where "Write_IPv6 b (whole (length b)) = Some (set16 b 46 v)" by blast
      then show ?thesis using True udp by (simp add: segment_readable_def)
    next
      case False
      then have "length (ipv6_segment b) < 8" by simp
      from Write_IPv6_udp_panic[OF ok udp this]
      show ?thesis using False udp by (simp add: segment_readable_def)
    qed
  next
    case tcp
    show ?thesis
    proof (cases "18 \<le> length (ipv6_segment b) \<and>
                  tcp_doff (ipv6_segment b) \<le> length (ipv6_segment b)")
      case True
      then have "18 \<le> length (ipv6_segment b)"
        "tcp_doff (ipv6_segment b) \<le> length (ipv6_segment b)" by simp_all
      from Write_IPv6_tcp_run[OF ok tcp this]
      obtain v where "Write_IPv6 b (whole (length b)) = Some (set16 b 56 v)" by blast
      then show ?thesis using True tcp by (simp add: segment_readable_def)
    next
      case False
      from Write_IPv6_tcp_panic[OF ok tcp this]
      show ?thesis using False tcp by (simp add: segment_readable_def)
    qed
  next
    case other
    then show ?thesis
      using Write_IPv6_other[of b] f(1) by (simp add: segment_readable_def)
  qed
qed

lemma Write_by_version:
  "version_nibble b = Some 4 \<Longrightarrow>
     Write e b = (case Write_IPv4 b (whole (length b)) of None \<Rightarrow> None
       | Some m \<Rightarrow> Some ((length b, None),
                         InjectInbound e IPv4ProtocolNumber (take (length b) m)))"
  "version_nibble b = Some 6 \<Longrightarrow>
     Write e b = (case Write_IPv6 b (whole (length b)) of None \<Rightarrow> None
       | Some m \<Rightarrow> Some ((length b, None),
                         InjectInbound e IPv6ProtocolNumber (take (length b) m)))"
proof -
  have c: "contents m (whole (length b)) = take (length b) m" "len (whole (length b)) = length b"
    for m by (simp_all add: contents_def whole_def)
  show "version_nibble b = Some 4 \<Longrightarrow>
     Write e b = (case Write_IPv4 b (whole (length b)) of None \<Rightarrow> None
       | Some m \<Rightarrow> Some ((length b, None),
                         InjectInbound e IPv4ProtocolNumber (take (length b) m)))"
    by (simp add: Write_def Let_def IPVersion_whole IPv4Version_def c split: option.splits)
  show "version_nibble b = Some 6 \<Longrightarrow>
     Write e b = (case Write_IPv6 b (whole (length b)) of None \<Rightarrow> None
       | Some m \<Rightarrow> Some ((length b, None),
                         InjectInbound e IPv6ProtocolNumber (take (length b) m)))"
    by (simp add: Write_def Let_def IPVersion_whole IPv4Version_def IPv6Version_def c
        split: option.splits)
qed

lemma Write_header_ok4:
  assumes ok: "ipv4_header_ok b"
  shows "if segment_readable (unat (b ! 9)) (ipv4_segment b)
         then \<exists>pkt. Write e b =
                  Some ((length b, None), InjectInbound e IPv4ProtocolNumber pkt) \<and>
                length pkt = length b \<and>
                take (ipv4_hlen b) pkt =
                  set16 (take (ipv4_hlen b) b) 10
                    (NOT (Checksum (set16 (take (ipv4_hlen b) b) 10 0) 0)) \<and>
                ipv4_header_sum pkt = 0xFFFF
         else Write e b = None"
proof -
  have v: "version_nibble b = Some 4" using ok by (simp add: ipv4_header_ok_def)
  show ?thesis
  proof (cases "segment_readable (unat (b ! 9)) (ipv4_segment b)")
    case True
    then obtain m where m: "Write_IPv4 b (whole (length b)) = Some m" "length m = length b"
      "take (ipv4_hlen b) m =
         set16 (take (ipv4_hlen b) b) 10 (NOT (Checksum (set16 (take (ipv4_hlen b) b) 10 0) 0))"
      "ipv4_header_sum m = 0xFFFF"
      using Write_IPv4_ok[OF ok] by auto
    have "Write e b = Some ((length b, None), InjectInbound e IPv4ProtocolNumber m)"
      by (simp add: Write_by_version(1)[OF v] m)
    then show ?thesis using True m by auto
  next
    case False
    then show ?thesis using Write_IPv4_ok[OF ok] by (simp add: Write_by_version(1)[OF v])
  qed
qed

lemma Write_header_ok6:
  assumes ok: "ipv6_header_ok b"
  shows "if segment_readable (unat (b ! 6)) (ipv6_segment b)
         then \<exists>pkt. Write e b =
                  Some ((length b, None), InjectInbound e IPv6ProtocolNumber pkt) \<and>
                length pkt = length b
         else Write e b = None"
proof -
  have v: "version_nibble b = Some 6" using ok by (simp add: ipv6_header_ok_def)
  show ?thesis
  proof (cases "segment_readable (unat (b ! 6)) (ipv6_segment b)")
    case True
    then obtain m where m: "Write_IPv6 b (whole (length b)) = Some m" "length m = length b"
      using Write_IPv6_ok[OF ok] by auto
    have "Write e b = Some ((length b, None), InjectInbound e IPv6ProtocolNumber m)"
      by (simp add: Write_by_version(2)[OF v] m)
    then show ?thesis using True m by auto
  next
    case False
    then show ?thesis using Write_IPv6_ok[OF ok] by (simp add: Write_by_version(2)[OF v])
  qed
qed

lemma transport_sum_past_header_field:
  assumes ok: "ipv4_header_ok b"
  shows "transport_sum (set16 (set16 b 10 c) (ipv4_hlen b + i) x) =
         transport_sum (set16 b (ipv4_hlen b + i) x)"
proof -
  note f = ipv4_ok_facts[OF ok]
  note g = header_fields_set16_10[OF f(3), of c]
  have ok2: "ipv4_header_ok (set16 b 10 c)" using ok by (simp add: g)
  have k: "20 \<le> ipv4_hlen b + i" using f(3) by simp
  have d: "drop (ipv4_hlen b) (set16 (set16 b 10 c) (ipv4_hlen b + i) x) =
           drop (ipv4_hlen b) (set16 b (ipv4_hlen b + i) x)"
    using f(3) by (simp add: drop_set16 drop_set16_outside)
  have a: "take 4 (drop 16 (set16 b 10 c)) = take 4 (drop 16 b)"
    "take 4 (drop 12 (set16 b 10 c)) = take 4 (drop 12 b)"
    by (simp_all add: drop_set16_outside)
  have "unat (transport_sum (set16 (set16 b 10 c) (ipv4_hlen b + i) x)) =
        unat (transport_sum (set16 b (ipv4_hlen b + i) x))"
    using transport_sum4_nat[OF ok2 k, of x] transport_sum4_nat[OF ok k, of x]
    by (simp add: g a d)
  then show ?thesis by (simp add: word_unat_eq_iff)
qed

lemma Write_valid_transport4:
  assumes v: "valid_transport4 b"
  defines "pkt \<equiv> set16 (set16 b 10 (NOT (Checksum (set16 (take (ipv4_hlen b) b) 10 0) 0)))
                   (transport_field b) (NOT (transport_sum (set16 b (transport_field b) 0)))"
  shows "Write e b = Some ((length b, None), InjectInbound e IPv4ProtocolNumber pkt)"
    and "transport_sum pkt = 0xFFFF"
proof -
  have ok: "ipv4_header_ok b"
    and s: "unat (b ! 9) = 17 \<and> udp_segment_ok (ipv4_segment b) \<or>
            unat (b ! 9) = 6 \<and> tcp_segment_ok (ipv4_segment b)"
    using v by (simp_all add: valid_transport4_def)
  note f = ipv4_ok_facts[OF ok]
  define c where "c = NOT (Checksum (set16 (take (ipv4_hlen b) b) 10 0) 0)"
  let ?m2 = "set16 b 10 c"
  note g = header_fields_set16_10[OF f(3), of c]
  note st = Write_IPv4_header_step[OF ok, folded c_def]
  have ok2: "ipv4_header_ok ?m2" using ok by (simp add: g)
  have s2: "unat (?m2 ! 9) = 17 \<and> udp_segment_ok (ipv4_segment ?m2) \<or>
            unat (?m2 ! 9) = 6 \<and> tcp_segment_ok (ipv4_segment ?m2)"
    using s by (simp add: g)
  have tf2: "transport_field ?m2 = transport_field b"
    by (simp add: transport_field_def g f(2))
  obtain i where tf: "transport_field b = ipv4_hlen b + i"
    by (simp add: transport_field_def f(2))
  have ts: "transport_sum (set16 ?m2 (transport_field b) x) =
            transport_sum (set16 b (transport_field b) x)" for x
    unfolding tf by (rule transport_sum_past_header_field[OF ok])
  have p: "pkt = set16 ?m2 (transport_field b)
                   (NOT (transport_sum (set16 ?m2 (transport_field b) 0)))"
    unfolding ts unfolding pkt_def c_def by (rule refl)
  note r = Write_IPv4_transport_valid[OF ok2 s2, unfolded tf2 length_set16, folded p]
  have "Write_IPv4 b (whole (length b)) = Some pkt" using st(1) r(1) by simp
  moreover have "length pkt = length b" by (simp add: pkt_def)
  ultimately show "Write e b = Some ((length b, None), InjectInbound e IPv4ProtocolNumber pkt)"
    by (simp add: Write_by_version(1)[OF f(2)])
  show "transport_sum pkt = 0xFFFF" by (rule r(2))
qed

lemma Write_valid_transport6:
  assumes v: "valid_transport6 b"
  defines "pkt \<equiv> set16 b (transport_field b)
                   (NOT (transport_sum (set16 b (transport_field b) 0)))"
  shows "Write e b = Some ((length b, None), InjectInbound e IPv6ProtocolNumber pkt)"
    and "transport_sum pkt = 0xFFFF"
proof -
  have ok: "ipv6_header_ok b"
    and s: "unat (b ! 6) = 17 \<and> udp_segment_ok (ipv6_segment b) \<or>
            unat (b ! 6) = 6 \<and> tcp_segment_ok (ipv6_segment b)"
    using v by (simp_all add: valid_transport6_def)
  note f = ipv6_ok_facts[OF ok]
  note r = Write_IPv6_transport_valid[OF ok s, folded pkt_def]
  have "length pkt = length b" by (simp add: pkt_def)
  then show "Write e b = Some ((length b, None), InjectInbound e IPv6ProtocolNumber pkt)"
    using r(1) by (simp add: Write_by_version(2)[OF f(2)])
  show "transport_sum pkt = 0xFFFF" by (rule r(2))
qed

lemma sample_udp4_valid: "valid_transport4 sample_udp4" "ipv4_header_ok sample_udp4"
  "segment_readable (unat (sample_udp4 ! 9)) (ipv4_segment sample_udp4)"
  by (simp_all add: valid_transport4_def ipv4_header_ok_def version_nibble_def
      ipv4_hlen_def u16_at_def ipv4_segment_def udp_segment_ok_def segment_readable_def
      sample_udp4_def)

lemma sample_tcp_fragment_header: "ipv4_header_ok sample_tcp_fragment"
  "\<not> segment_readable (unat (sample_tcp_fragment ! 9)) (ipv4_segment sample_tcp_fragment)"
  by (simp_all add: ipv4_header_ok_def version_nibble_def ipv4_hlen_def u16_at_def
      ipv4_segment_def segment_readable_def sample_tcp_fragment_def)

lemma sample_tcp6_valid: "valid_transport6 sample_tcp6" "ipv6_header_ok sample_tcp6"
  "segment_readable (unat (sample_tcp6 ! 6)) (ipv6_segment sample_tcp6)"
  by (simp_all add: valid_transport6_def ipv6_header_ok_def version_nibble_def
      u16_at_def ipv6_segment_def tcp_segment_ok_def tcp_doff_def segment_readable_def
      sample_tcp6_def)






text \<open>
  C10 as stated: for every byte slice \<open>b\<close>, \<^verbatim>\<open>Write\<close> returns \<open>(len(b), nil)\<close>.
  It does not return on the single byte \<open>0x45\<close>: the version is 4, and storing the
  header checksum at bytes 10 and 11 is out of range.
\<close>

theorem Write_always_returns_counterexample:
  "\<not> (\<forall>e b. \<exists>e'. Write e b = Some ((length b, None), e'))"
proof
  assume "\<forall>e b. \<exists>e'. Write e b = Some ((length b, None), e')"
  then obtain e' where "Write no_traffic sample_truncated = Some ((length sample_truncated, None), e')"
    by blast
  moreover have "Write no_traffic sample_truncated = None"
    by (simp add: Write_def Let_def sample_truncated_def IPVersion_def whole_def IPv4Version_def
        Write_IPv4_def IPv4_SetChecksum_def slice_from_def reslice_def)
  ultimately show False by simp
qed

text \<open>
  C10 as amended.  \<^verbatim>\<open>Write\<close> never returns an error: it returns \<open>(len(b), nil)\<close> or
  it panics.  It returns \<open>(len(b), nil)\<close>, the channel untouched, when the version nibble
  is neither 4 nor 6.  For a packet with a valid IPv4 or IPv6 header it returns
  \<open>(len(b), nil)\<close> and injects one packet of the same length exactly when the payload
  holds the transport fields it touches (any payload if the protocol is neither UDP nor
  TCP, 8 bytes for UDP, for TCP 18 bytes and a data offset inside the payload), and it
  panics otherwise.
\<close>

theorem Write_returns_length_or_panics:
  "(Write e b = None \<or> (\<exists>e'. Write e b = Some ((length b, None), e'))) \<and>
   (\<not> known_version b \<longrightarrow> Write e b = Some ((length b, None), e)) \<and>
   (ipv4_header_ok b \<longrightarrow>
      (if segment_readable (unat (b ! 9)) (ipv4_segment b)
       then \<exists>pkt. Write e b =
                Some ((length b, None), InjectInbound e IPv4ProtocolNumber pkt) \<and>
              length pkt = length b
       else Write e b = None)) \<and>
   (ipv6_header_ok b \<longrightarrow>
      (if segment_readable (unat (b ! 6)) (ipv6_segment b)
       then \<exists>pkt. Write e b =
                Some ((length b, None), InjectInbound e IPv6ProtocolNumber pkt) \<and>
              length pkt = length b
       else Write e b = None))"
proof (intro conjI impI)
  show "Write e b = None \<or> (\<exists>e'. Write e b = Some ((length b, None), e'))"
    by (cases "Write_IPv4 b (whole (length b))"; cases "Write_IPv6 b (whole (length b))")
       (simp_all add: Write_def Let_def whole_def)
  show "Write e b = Some ((length b, None), e)" if "\<not> known_version b"
    using that by (rule Write_unknown_version)
  show "if segment_readable (unat (b ! 9)) (ipv4_segment b)
       then \<exists>pkt. Write e b =
                Some ((length b, None), InjectInbound e IPv4ProtocolNumber pkt) \<and>
              length pkt = length b
       else Write e b = None" if "ipv4_header_ok b"
    using Write_header_ok4[OF that, of e] by auto
  show "if segment_readable (unat (b ! 6)) (ipv6_segment b)
       then \<exists>pkt. Write e b =
                Some ((length b, None), InjectInbound e IPv6ProtocolNumber pkt) \<and>
              length pkt = length b
       else Write e b = None" if "ipv6_header_ok b"
    using Write_header_ok6[OF that, of e] by auto
qed

theorem Write_returns_length_or_panics_witness:
  "\<not> known_version sample_unknown \<and>
   Write no_traffic sample_unknown = Some ((3, None), no_traffic) \<and>
   ipv4_header_ok sample_udp4 \<and>
   (\<exists>pkt. Write no_traffic sample_udp4 =
            Some ((32, None), InjectInbound no_traffic IPv4ProtocolNumber pkt) \<and>
          length pkt = 32) \<and>
   ipv4_header_ok sample_tcp_fragment \<and>
   Write no_traffic sample_tcp_fragment = None \<and>
   ipv6_header_ok sample_tcp6 \<and>
   (\<exists>pkt. Write no_traffic sample_tcp6 =
            Some ((61, None), InjectInbound no_traffic IPv6ProtocolNumber pkt) \<and>
          length pkt = 61)"
proof -
  have l: "length sample_unknown = 3" "length sample_udp4 = 32" "length sample_tcp6 = 61"
    by (simp_all add: sample_unknown_def sample_udp4_def sample_tcp6_def)
  have 1: "Write no_traffic sample_unknown = Some ((3, None), no_traffic)"
    using Write_returns_length_or_panics[of no_traffic sample_unknown] sample_versions(1)
    by (simp add: l)
  have 2: "\<exists>pkt. Write no_traffic sample_udp4 =
            Some ((32, None), InjectInbound no_traffic IPv4ProtocolNumber pkt) \<and>
          length pkt = 32"
    using Write_returns_length_or_panics[of no_traffic sample_udp4] sample_udp4_valid(2,3)
    by (simp add: l)
  have 3: "Write no_traffic sample_tcp_fragment = None"
    using Write_returns_length_or_panics[of no_traffic sample_tcp_fragment]
      sample_tcp_fragment_header by simp
  have 4: "\<exists>pkt. Write no_traffic sample_tcp6 =
            Some ((61, None), InjectInbound no_traffic IPv6ProtocolNumber pkt) \<and>
          length pkt = 61"
    using Write_returns_length_or_panics[of no_traffic sample_tcp6] sample_tcp6_valid(2,3)
    by (simp add: l)
  show ?thesis
    using 1 2 3 4 sample_versions(1) sample_udp4_valid(2) sample_tcp_fragment_header(1)
      sample_tcp6_valid(2)
    by simp
qed

end
